theory Spec2Isabelle
  imports Complex_Main
begin

section \<open>Schelling segregation model: data model\<close>

text \<open>
  The development embeds \<^verbatim>\<open>src/schelling.py\<close> (class \<^verbatim>\<open>SchellingModel\<close>).

  \<^item> A grid cell holds \<^verbatim>\<open>None\<close>, \<^verbatim>\<open>"A"\<close> or \<^verbatim>\<open>"B"\<close>; these are the
    constructors \<open>Empty\<close>, \<open>TypeA\<close> and \<open>TypeB\<close>. A cell is truthy exactly when
    it is not \<open>Empty\<close>.
  \<^item> Python integers are \<open>int\<close>. Python floats are modelled by exact rationals
    (\<open>rat\<close>): the only float operations of the engine are one division of two small
    counters and comparisons.
  \<^item> The grid is a list of rows, indexed \<^verbatim>\<open>grid[x][y]\<close>. The rows are built by a
    list comprehension, so they are distinct objects and a value model is adequate.
  \<^item> A call returns a value, raises an exception, or has not returned on the random
    draws supplied so far (\<open>Starved\<close>): the random source is an explicit finite list
    of raw draws, so a rejection-sampling loop that would spin forever is \<open>Starved\<close>
    on every list of draws.
\<close>

datatype cell = Empty | TypeA | TypeB

datatype error = AssertionError | ZeroDivisionError | IndexError | ValueError

datatype 'a outcome = Returns 'a | Raises error | Starved

fun bind :: "'a outcome \<Rightarrow> ('a \<Rightarrow> 'b outcome) \<Rightarrow> 'b outcome" where
  "bind (Returns v) f = f v"
| "bind (Raises e) f = Raises e"
| "bind Starved f = Starved"

type_synonym pos = "int \<times> int"

record model =
  x_size :: int
  y_size :: int
  n_agents :: int
  share_a :: rat
  stay_threshold :: rat
  grid :: "cell list list"
  segregation_shares :: "rat list"
  steps_run :: int

subsection \<open>Python list indexing\<close>

text \<open>
  \<^verbatim>\<open>xs[i]\<close>: an index in \<open>[-len, 0)\<close> counts from the end, anything else outside
  \<open>[0, len)\<close> raises \<^verbatim>\<open>IndexError\<close>.
\<close>

definition norm_index :: "nat \<Rightarrow> int \<Rightarrow> nat option" where
  "norm_index n i =
     (if 0 \<le> i \<and> i < int n then Some (nat i)
      else if - int n \<le> i \<and> i < 0 then Some (nat (i + int n))
      else None)"

definition getitem :: "'a list \<Rightarrow> int \<Rightarrow> 'a outcome" where
  "getitem xs i =
     (case norm_index (length xs) i of
        None \<Rightarrow> Raises IndexError
      | Some k \<Rightarrow> Returns (xs ! k))"

definition setitem :: "'a list \<Rightarrow> int \<Rightarrow> 'a \<Rightarrow> 'a list outcome" where
  "setitem xs i v =
     (case norm_index (length xs) i of
        None \<Rightarrow> Raises IndexError
      | Some k \<Rightarrow> Returns (xs[k := v]))"

text \<open>\<^verbatim>\<open>self.grid[x][y]\<close> as a read and as an assignment target.\<close>

definition cell_at :: "cell list list \<Rightarrow> pos \<Rightarrow> cell outcome" where
  "cell_at g p = bind (getitem g (fst p)) (\<lambda>row. getitem row (snd p))"

definition set_cell :: "cell list list \<Rightarrow> pos \<Rightarrow> cell \<Rightarrow> cell list list outcome" where
  "set_cell g p v =
     bind (getitem g (fst p)) (\<lambda>row.
     bind (setitem row (snd p) v) (\<lambda>row'.
     setitem g (fst p) row'))"

section \<open>Neighbor analysis\<close>

text \<open>
  \<^verbatim>\<open>__get_neighbor_positions\<close>: the two nested loops over \<^verbatim>\<open>range(-1, 2)\<close>, appending
  \<open>(x, y)\<close> when it lies inside \<open>x_size \<times> y_size\<close> and differs from the position.
\<close>

definition get_neighbor_positions :: "model \<Rightarrow> pos \<Rightarrow> pos list" where
  "get_neighbor_positions s position =
     concat (map (\<lambda>i.
       concat (map (\<lambda>j.
         (if 0 \<le> fst position + i \<and> fst position + i < x_size s
             \<and> 0 \<le> snd position + j \<and> snd position + j < y_size s
             \<and> (fst position + i, snd position + j) \<noteq> position
          then [(fst position + i, snd position + j)] else []))
         [-1, 0, 1]))
       [-1, 0, 1])"

text \<open>
  \<^verbatim>\<open>__count_neighbors\<close>: the loop over the neighbor positions, reading
  \<^verbatim>\<open>self.grid[x][y]\<close> for each.
\<close>

lemma bind_cong [fundef_cong]:
  "m = m' \<Longrightarrow> (\<And>v. m' = Returns v \<Longrightarrow> f v = f' v) \<Longrightarrow> bind m f = bind m' f'"
  by (cases m') simp_all

fun count_loop :: "cell list list \<Rightarrow> pos list \<Rightarrow> int \<times> int \<Rightarrow> (int \<times> int) outcome" where
  "count_loop g [] (a_count, b_count) = Returns (a_count, b_count)"
| "count_loop g (p # neighbors) (a_count, b_count) =
     bind (cell_at g p) (\<lambda>c.
       if c = TypeA then count_loop g neighbors (a_count + 1, b_count)
       else if c = TypeB then count_loop g neighbors (a_count, b_count + 1)
       else count_loop g neighbors (a_count, b_count))"

definition count_neighbors :: "model \<Rightarrow> pos \<Rightarrow> (int \<times> int) outcome" where
  "count_neighbors s position =
     count_loop (grid s) (get_neighbor_positions s position) (0, 0)"

text \<open>
  \<^verbatim>\<open>__get_neighbor_relation\<close>. The counts are taken first; the result is the integer
  \<open>1\<close>, a quotient of the two counts, or \<open>1.0\<close> for an empty cell.
\<close>

definition get_neighbor_relation :: "model \<Rightarrow> pos \<Rightarrow> rat outcome" where
  "get_neighbor_relation s position =
     bind (count_neighbors s position) (\<lambda>(a_count, b_count).
     bind (cell_at (grid s) position) (\<lambda>c.
       if c = TypeA then
         (if b_count = 0 then Returns 1 else Returns (of_int a_count / of_int b_count))
       else if c = TypeB then
         (if a_count = 0 then Returns 1 else Returns (of_int b_count / of_int a_count))
       else Returns 1))"

section \<open>Placement and search\<close>

text \<open>
  \<^verbatim>\<open>random.randint(a, b)\<close>: \<^verbatim>\<open>ValueError\<close> on an empty range, otherwise the next raw
  draw mapped into \<open>[a, b]\<close>. Every value of the range is the image of some draw.
\<close>

definition randint :: "int \<Rightarrow> int \<Rightarrow> nat list \<Rightarrow> (int \<times> nat list) outcome" where
  "randint a b ds =
     (if b < a then Raises ValueError
      else case ds of
        [] \<Rightarrow> Starved
      | d # ds' \<Rightarrow> Returns (a + int d mod (b - a + 1), ds'))"

lemma randint_consumes:
  "randint a b ds = Returns (v, ds') \<Longrightarrow> length ds' < length ds"
  by (auto simp: randint_def split: if_splits list.splits)

text \<open>
  \<^verbatim>\<open>__find_empty_cell\<close>: draw a position; while the cell there is occupied, draw
  again. The bounds are \<^verbatim>\<open>len(self.grid) - 1\<close> and \<^verbatim>\<open>len(self.grid[0]) - 1\<close>.
\<close>

function find_empty_cell :: "model \<Rightarrow> nat list \<Rightarrow> (pos \<times> nat list) outcome" where
  "find_empty_cell s ds =
     bind (randint 0 (int (length (grid s)) - 1) ds) (\<lambda>(new_x_pos, ds1).
     bind (getitem (grid s) 0) (\<lambda>row0.
     bind (randint 0 (int (length row0) - 1) ds1) (\<lambda>(new_y_pos, ds2).
     bind (cell_at (grid s) (new_x_pos, new_y_pos)) (\<lambda>c.
       if c \<noteq> Empty then find_empty_cell s ds2
       else Returns ((new_x_pos, new_y_pos), ds2)))))"
  by pat_completeness auto
termination
  by (relation "measure (\<lambda>(s, ds). length ds)")
     (auto dest!: randint_consumes)

text \<open>
  \<^verbatim>\<open>__find_full_cell\<close>: draw a position within \<open>x_size \<times> y_size\<close> until the cell
  there is occupied.
\<close>

function find_full_cell :: "model \<Rightarrow> nat list \<Rightarrow> (pos \<times> nat list) outcome" where
  "find_full_cell s ds =
     bind (randint 0 (x_size s - 1) ds) (\<lambda>(new_x_pos, ds1).
     bind (randint 0 (y_size s - 1) ds1) (\<lambda>(new_y_pos, ds2).
     bind (cell_at (grid s) (new_x_pos, new_y_pos)) (\<lambda>c.
       if c \<noteq> Empty then Returns ((new_x_pos, new_y_pos), ds2)
       else find_full_cell s ds2)))"
  by pat_completeness auto
termination
  by (relation "measure (\<lambda>(s, ds). length ds)")
     (auto dest!: randint_consumes)

section \<open>Construction\<close>

text \<open>\<^verbatim>\<open>__check_inputs\<close>: the five assertions, in the source's order.\<close>

definition check_inputs :: "model \<Rightarrow> unit outcome" where
  "check_inputs s =
     (if \<not> (x_size s > 1 \<and> y_size s > 1) then Raises AssertionError
      else if \<not> (x_size s * y_size s > n_agents s) then Raises AssertionError
      else if \<not> (n_agents s > 1) then Raises AssertionError
      else if \<not> (0 \<le> share_a s \<and> share_a s \<le> 1) then Raises AssertionError
      else if \<not> (0 \<le> stay_threshold s \<and> stay_threshold s \<le> 1) then Raises AssertionError
      else Returns ())"

text \<open>
  One placement loop of \<^verbatim>\<open>__initialize_grid\<close>: \<open>k\<close> times, find an empty cell and
  write the agent type there.
\<close>

fun place :: "cell \<Rightarrow> nat \<Rightarrow> model \<Rightarrow> nat list \<Rightarrow> (model \<times> nat list) outcome" where
  "place v 0 s ds = Returns (s, ds)"
| "place v (Suc k) s ds =
     bind (find_empty_cell s ds) (\<lambda>(new_pos, ds1).
     bind (set_cell (grid s) new_pos v) (\<lambda>g.
     place v k (s\<lparr>grid := g\<rparr>) ds1))"

text \<open>
  \<^verbatim>\<open>__initialize_grid\<close>: \<open>x_size\<close> fresh rows of \<open>y_size\<close> empty cells, then
  \<^verbatim>\<open>range(math.floor(self.n_agents / 2))\<close> placements of \<^verbatim>\<open>"A"\<close> and
  \<^verbatim>\<open>range(math.ceil(self.n_agents))\<close> placements of \<^verbatim>\<open>"B"\<close>. For an integer
  \<open>n\<close>, \<open>floor (n / 2)\<close> is \<open>n div 2\<close> and \<open>ceil n\<close> is \<open>n\<close>.
\<close>

definition initialize_grid :: "model \<Rightarrow> nat list \<Rightarrow> (model \<times> nat list) outcome" where
  "initialize_grid s ds =
     bind (place TypeA (nat (n_agents s div 2))
             (s\<lparr>grid := replicate (nat (x_size s)) (replicate (nat (y_size s)) Empty)\<rparr>) ds)
       (\<lambda>(s1, ds1). place TypeB (nat (n_agents s)) s1 ds1)"

text \<open>\<^verbatim>\<open>SchellingModel.__init__\<close>.\<close>

definition schelling_model ::
    "pos \<Rightarrow> int \<Rightarrow> rat \<Rightarrow> rat \<Rightarrow> nat list \<Rightarrow> (model \<times> nat list) outcome" where
  "schelling_model grid_size n a t ds =
     bind (check_inputs
             \<lparr>x_size = fst grid_size, y_size = snd grid_size, n_agents = n, share_a = a,
              stay_threshold = t, grid = [], segregation_shares = [], steps_run = 0\<rparr>)
       (\<lambda>_. initialize_grid
             \<lparr>x_size = fst grid_size, y_size = snd grid_size, n_agents = n, share_a = a,
              stay_threshold = t, grid = [], segregation_shares = [], steps_run = 0\<rparr> ds)"

section \<open>Step engine, metric and run loop\<close>

text \<open>\<^verbatim>\<open>__run_one_step\<close>.\<close>

definition run_one_step :: "model \<Rightarrow> nat list \<Rightarrow> (model \<times> nat list) outcome" where
  "run_one_step s ds =
     bind (find_full_cell s ds) (\<lambda>(chosen_agent, ds1).
     bind (get_neighbor_relation s chosen_agent) (\<lambda>equals.
       if equals < stay_threshold s then
         bind (find_empty_cell s ds1) (\<lambda>(new_pos, ds2).
         bind (cell_at (grid s) chosen_agent) (\<lambda>v.
         bind (set_cell (grid s) new_pos v) (\<lambda>g1.
         bind (set_cell g1 chosen_agent Empty) (\<lambda>g2.
         Returns (s\<lparr>grid := g2\<rparr>, ds2)))))
       else Returns (s, ds1)))"

text \<open>
  \<^verbatim>\<open>get_segregation\<close>: the positions visited by the two nested \<^verbatim>\<open>range\<close> loops
  (row-major over \<^verbatim>\<open>len(self.grid)\<close> and \<^verbatim>\<open>len(self.grid[0])\<close>), the counting
  loop, and the final division by \<^verbatim>\<open>self.n_agents\<close>.
\<close>

definition grid_positions :: "cell list list \<Rightarrow> pos list" where
  "grid_positions g =
     (case g of
        [] \<Rightarrow> []
      | row0 # _ \<Rightarrow>
          concat (map (\<lambda>i. map (\<lambda>j. (int i, int j)) [0..<length row0]) [0..<length g]))"

fun segregation_loop :: "model \<Rightarrow> pos list \<Rightarrow> int \<Rightarrow> int outcome" where
  "segregation_loop s [] staying = Returns staying"
| "segregation_loop s (p # ps) staying =
     bind (cell_at (grid s) p) (\<lambda>c.
       if c \<noteq> Empty then
         bind (get_neighbor_relation s p) (\<lambda>neighbor_relation.
           if neighbor_relation \<ge> stay_threshold s
           then segregation_loop s ps (staying + 1)
           else segregation_loop s ps staying)
       else segregation_loop s ps staying)"

definition get_segregation :: "model \<Rightarrow> rat outcome" where
  "get_segregation s =
     bind (segregation_loop s (grid_positions (grid s)) 0) (\<lambda>staying.
       if n_agents s = 0 then Raises ZeroDivisionError
       else Returns (of_int staying / of_int (n_agents s)))"

text \<open>
  \<^verbatim>\<open>run\<close>: \<^verbatim>\<open>range(steps)\<close> iterations of step, counter, history and the periodic
  print test \<^verbatim>\<open>self.steps_run % print_every == 0\<close>, whose modulo raises
  \<^verbatim>\<open>ZeroDivisionError\<close> for \<open>print_every = 0\<close>. Rendering only reads the grid; the
  model records each printed grid in an output log.
\<close>

fun run_loop ::
    "nat \<Rightarrow> int \<Rightarrow> model \<Rightarrow> nat list \<Rightarrow> cell list list list
      \<Rightarrow> (model \<times> nat list \<times> cell list list list) outcome" where
  "run_loop 0 print_every s ds out = Returns (s, ds, out)"
| "run_loop (Suc k) print_every s ds out =
     bind (run_one_step s ds) (\<lambda>(s1, ds1).
     bind (get_segregation (s1\<lparr>steps_run := steps_run s1 + 1\<rparr>)) (\<lambda>share.
       if print_every = 0 then Raises ZeroDivisionError
       else run_loop k print_every
              (s1\<lparr>steps_run := steps_run s1 + 1,
                  segregation_shares := segregation_shares s1 @ [share]\<rparr>)
              ds1
              (if (steps_run s1 + 1) mod print_every = 0
               then out @ [grid s1] else out)))"

definition run ::
    "model \<Rightarrow> int \<Rightarrow> bool \<Rightarrow> int \<Rightarrow> nat list
      \<Rightarrow> (model \<times> nat list \<times> cell list list list) outcome" where
  "run s steps print_at_end print_every ds =
     bind (run_loop (nat steps) print_every s ds []) (\<lambda>(s', ds', out).
       Returns (s', ds', if print_at_end then out @ [grid s'] else out))"

section \<open>Notions used in the statements\<close>

text \<open>
  The number of cells of a grid holding a given value, the number of occupied cells,
  the shape of a grid built for the configured sizes, and positions inside the
  configured sizes.
\<close>

definition count_cells :: "cell \<Rightarrow> cell list list \<Rightarrow> nat" where
  "count_cells c g = count_list (concat g) c"

definition occupied :: "cell list list \<Rightarrow> nat" where
  "occupied g = length (filter (\<lambda>c. c \<noteq> Empty) (concat g))"

definition well_formed :: "model \<Rightarrow> bool" where
  "well_formed s \<longleftrightarrow>
     length (grid s) = nat (x_size s) \<and>
     list_all (\<lambda>row. length row = nat (y_size s)) (grid s)"

definition in_bounds :: "model \<Rightarrow> pos \<Rightarrow> bool" where
  "in_bounds s p \<longleftrightarrow> 0 \<le> fst p \<and> fst p < x_size s \<and> 0 \<le> snd p \<and> snd p < y_size s"

text \<open>
  One completed iteration of the loop of \<^verbatim>\<open>run\<close>, as the documentation describes it:
  one step, then the counter is incremented and the segregation share of the resulting
  state is appended to the history. A chain is a sequence of states related by
  consecutive iterations.
\<close>

definition iteration :: "model \<Rightarrow> nat list \<Rightarrow> model \<Rightarrow> nat list \<Rightarrow> bool" where
  "iteration s ds s' ds' \<longleftrightarrow>
     (\<exists>s1 share.
        run_one_step s ds = Returns (s1, ds')
      \<and> s' = s1\<lparr>steps_run := steps_run s + 1,
                 segregation_shares := segregation_shares s @ [share]\<rparr>
      \<and> get_segregation s' = Returns share)"

fun chain :: "(model \<times> nat list) list \<Rightarrow> bool" where
  "chain (a # b # rest) \<longleftrightarrow> iteration (fst a) (snd a) (fst b) (snd b) \<and> chain (b # rest)"
| "chain _ \<longleftrightarrow> True"

text \<open>Concrete models used to instantiate the theorems.\<close>

definition small_model :: model where
  "small_model =
     \<lparr>x_size = 2, y_size = 2, n_agents = 2, share_a = 1 / 2, stay_threshold = 1 / 2,
      grid = [[TypeA, TypeB], [TypeB, Empty]], segregation_shares = [], steps_run = 0\<rparr>"

definition ratio_grid :: model where
  "ratio_grid =
     \<lparr>x_size = 3, y_size = 3, n_agents = 5, share_a = 1 / 2, stay_threshold = 1 / 2,
      grid = [[TypeA, TypeA, TypeB], [TypeA, TypeA, Empty], [Empty, Empty, Empty]],
      segregation_shares = [], steps_run = 0\<rparr>"

definition full_model :: model where
  "full_model =
     \<lparr>x_size = 2, y_size = 2, n_agents = 3, share_a = 1 / 2, stay_threshold = 1 / 2,
      grid = [[TypeA, TypeB], [TypeB, TypeB]], segregation_shares = [], steps_run = 0\<rparr>"

definition scenario_model :: model where
  "scenario_model =
     \<lparr>x_size = 4, y_size = 4, n_agents = 4, share_a = 1 / 2, stay_threshold = 0,
      grid = [[TypeA, TypeB, TypeB, Empty], [Empty, TypeA, Empty, Empty],
              [Empty, Empty, TypeB, Empty], [Empty, Empty, Empty, TypeB]],
      segregation_shares = [], steps_run = 0\<rparr>"


text \<open>
  A computation on the random source reads a prefix of it: when it returns, it has
  consumed an initial part of the draws, and on any source that starts with that part it
  returns the same value and leaves what follows.
\<close>

definition reads_prefix :: "(nat list \<Rightarrow> ('a \<times> nat list) outcome) \<Rightarrow> bool" where
  "reads_prefix f \<longleftrightarrow>
     (\<forall>ds v rest. f ds = Returns (v, rest) \<longrightarrow>
        (\<exists>used. ds = used @ rest \<and> (\<forall>more. f (used @ more) = Returns (v, more))))"

section \<open>Basic facts\<close>

declare find_empty_cell.simps [simp del] find_full_cell.simps [simp del]

lemma bind_Returns_iff:
  "bind m f = Returns r \<longleftrightarrow> (\<exists>v. m = Returns v \<and> f v = Returns r)"
  by (cases m) simp_all

lemma norm_index_nonneg:
  "0 \<le> i \<Longrightarrow> norm_index n i = (if i < int n then Some (nat i) else None)"
  by (simp add: norm_index_def)

lemma getitem_nonneg:
  "0 \<le> i \<Longrightarrow> getitem xs i = (if i < int (length xs) then Returns (xs ! nat i) else Raises IndexError)"
  by (simp add: getitem_def norm_index_nonneg)

lemma setitem_nonneg:
  "0 \<le> i \<Longrightarrow> setitem xs i v = (if i < int (length xs) then Returns (xs[nat i := v]) else Raises IndexError)"
  by (simp add: setitem_def norm_index_nonneg)

lemma cell_at_nonneg:
  "0 \<le> fst p \<Longrightarrow> 0 \<le> snd p \<Longrightarrow>
   cell_at g p =
     (if fst p < int (length g) \<and> snd p < int (length (g ! nat (fst p)))
      then Returns (g ! nat (fst p) ! nat (snd p)) else Raises IndexError)"
  by (simp add: cell_at_def getitem_nonneg)

lemma set_cell_nonneg:
  "0 \<le> fst p \<Longrightarrow> 0 \<le> snd p \<Longrightarrow>
   set_cell g p v =
     (if fst p < int (length g) \<and> snd p < int (length (g ! nat (fst p)))
      then Returns (g[nat (fst p) := (g ! nat (fst p))[nat (snd p) := v]]) else Raises IndexError)"
  by (simp add: set_cell_def getitem_nonneg setitem_nonneg)

lemma randint_Returns:
  "randint a b ds = Returns (v, ds') \<Longrightarrow> a \<le> v \<and> v \<le> b \<and> (\<exists>d. ds = d # ds')"
proof -
  assume h: "randint a b ds = Returns (v, ds')"
  then have ab: "a \<le> b" by (auto simp: randint_def split: if_splits)
  with h obtain d where d: "ds = d # ds'" "v = a + int d mod (b - a + 1)"
    by (auto simp: randint_def split: list.splits)
  from ab have "0 < b - a + 1" by simp
  then have "0 \<le> int d mod (b - a + 1)" "int d mod (b - a + 1) < b - a + 1"
    by (rule pos_mod_sign, rule pos_mod_bound)
  with d show ?thesis by auto
qed

lemma find_empty_cell_Returns:
  "find_empty_cell s ds = Returns (p, ds') \<Longrightarrow>
     0 \<le> fst p \<and> 0 \<le> snd p \<and> cell_at (grid s) p = Returns Empty"
proof (induction s ds rule: find_empty_cell.induct)
  case (1 s ds)
  from "1.prems" obtain x ds1 row0 y ds2 c where
    x: "randint 0 (int (length (grid s)) - 1) ds = Returns (x, ds1)" and
    r: "getitem (grid s) 0 = Returns row0" and
    y: "randint 0 (int (length row0) - 1) ds1 = Returns (y, ds2)" and
    c: "cell_at (grid s) (x, y) = Returns c" and
    k: "(if c \<noteq> Empty then find_empty_cell s ds2 else Returns ((x, y), ds2)) = Returns (p, ds')"
    by (subst (asm) find_empty_cell.simps) (auto simp: bind_Returns_iff)
  show ?case
  proof (cases "c = Empty")
    case True
    with k c randint_Returns [OF x] randint_Returns [OF y] show ?thesis by auto
  next
    case False
    with k have "find_empty_cell s ds2 = Returns (p, ds')" by simp
    from "1.IH" [OF x refl r y refl c False this]
    show ?thesis by simp
  qed
qed

lemma find_full_cell_Returns:
  "find_full_cell s ds = Returns (p, ds') \<Longrightarrow>
     in_bounds s p \<and> (\<exists>c. cell_at (grid s) p = Returns c \<and> c \<noteq> Empty)"
proof (induction s ds rule: find_full_cell.induct)
  case (1 s ds)
  from "1.prems" obtain x ds1 y ds2 c where
    x: "randint 0 (x_size s - 1) ds = Returns (x, ds1)" and
    y: "randint 0 (y_size s - 1) ds1 = Returns (y, ds2)" and
    c: "cell_at (grid s) (x, y) = Returns c" and
    k: "(if c \<noteq> Empty then Returns ((x, y), ds2) else find_full_cell s ds2) = Returns (p, ds')"
    by (subst (asm) find_full_cell.simps) (auto simp: bind_Returns_iff)
  show ?case
  proof (cases "c = Empty")
    case False
    with k c randint_Returns [OF x] randint_Returns [OF y] show ?thesis
      by (auto simp: in_bounds_def)
  next
    case True
    with k have "find_full_cell s ds2 = Returns (p, ds')" by simp
    moreover from True have "\<not> c \<noteq> Empty" by simp
    ultimately have "in_bounds s p \<and> (\<exists>c. cell_at (grid s) p = Returns c \<and> c \<noteq> Empty)"
      using "1.IH" [OF x refl y refl c] by blast
    then
    show ?thesis by simp
  qed
qed

lemma count_list_update:
  "j < length xs \<Longrightarrow>
   count_list (xs[j := v]) c + (if xs ! j = c then 1 else 0)
     = count_list xs c + (if v = c then 1 else 0)"
proof (induction xs arbitrary: j)
  case Nil
  then show ?case by simp
next
  case (Cons x xs)
  show ?case
  proof (cases j)
    case 0
    then show ?thesis by simp
  next
    case (Suc j')
    with Cons.prems Cons.IH [of j'] show ?thesis by (auto split: if_splits)
  qed
qed

lemma count_cells_update:
  "i < length g \<Longrightarrow> j < length (g ! i) \<Longrightarrow>
   count_cells c (g[i := (g ! i)[j := v]]) + (if g ! i ! j = c then 1 else 0)
     = count_cells c g + (if v = c then 1 else 0)"
proof (induction g arbitrary: i)
  case Nil
  then show ?case by simp
next
  case (Cons row g)
  show ?case
  proof (cases i)
    case 0
    with Cons.prems count_list_update [of j row v c] show ?thesis
      by (simp add: count_cells_def)
  next
    case (Suc i')
    with Cons.prems Cons.IH [of i'] show ?thesis
      by (simp add: count_cells_def)
  qed
qed

lemma occupied_count_cells: "occupied g = count_cells TypeA g + count_cells TypeB g"
proof -
  have "length (filter (\<lambda>c. c \<noteq> Empty) xs) = count_list xs TypeA + count_list xs TypeB"
    for xs :: "cell list"
  proof (induction xs)
    case Nil
    then show ?case by simp
  next
    case (Cons x xs)
    then show ?case by (cases x) simp_all
  qed
  then show ?thesis by (simp add: occupied_def count_cells_def)
qed

lemma cell_at_set_cell:
  assumes p: "0 \<le> fst p" "0 \<le> snd p" and q: "0 \<le> fst q" "0 \<le> snd q"
    and g': "set_cell g p v = Returns g'"
  shows "cell_at g' q = (if q = p then Returns v else cell_at g q)"
proof -
  from g' p have inb: "fst p < int (length g)" "snd p < int (length (g ! nat (fst p)))"
    and eq: "g' = g[nat (fst p) := (g ! nat (fst p))[nat (snd p) := v]]"
    by (auto simp: set_cell_nonneg split: if_splits)
  have neq: "q \<noteq> p \<Longrightarrow> nat (fst q) \<noteq> nat (fst p) \<or> nat (snd q) \<noteq> nat (snd p)"
    using p q by (auto simp: prod_eq_iff)
  show ?thesis
    using p q inb neq unfolding eq
    by (auto simp: cell_at_nonneg nth_list_update)
qed

lemma set_cell_shape:
  assumes "0 \<le> fst p" "0 \<le> snd p" "set_cell g p v = Returns g'"
  shows "map length g' = map length g"
proof -
  from assms have inb: "nat (fst p) < length g"
    and eq: "g' = g[nat (fst p) := (g ! nat (fst p))[nat (snd p) := v]]"
    by (auto simp: set_cell_nonneg split: if_splits)
  show ?thesis unfolding eq using inb
    by (simp add: map_update list_update_same_conv)
qed

lemma set_cell_count:
  assumes "0 \<le> fst p" "0 \<le> snd p" "cell_at g p = Returns old" "set_cell g p v = Returns g'"
  shows "count_cells c g' + (if old = c then 1 else 0) = count_cells c g + (if v = c then 1 else 0)"
proof -
  from assms have inb: "nat (fst p) < length g" "nat (snd p) < length (g ! nat (fst p))"
    and eq: "g' = g[nat (fst p) := (g ! nat (fst p))[nat (snd p) := v]]"
    and old: "old = g ! nat (fst p) ! nat (snd p)"
    by (auto simp: set_cell_nonneg cell_at_nonneg split: if_splits)
  show ?thesis unfolding eq old using count_cells_update [OF inb] by simp
qed

lemma set_cell_occupied_frame:
  assumes "0 \<le> fst p" "0 \<le> snd p" "cell_at g p = Returns old" "set_cell g p v = Returns g'"
  shows "occupied g' + (if old \<noteq> Empty then 1 else 0) = occupied g + (if v \<noteq> Empty then 1 else 0)"
  using set_cell_count [OF assms, of TypeA] set_cell_count [OF assms, of TypeB]
  by (cases old; cases v) (simp_all add: occupied_count_cells)

lemma place_frame:
  "place v k s ds = Returns (s', ds') \<Longrightarrow> \<exists>g. s' = s\<lparr>grid := g\<rparr>"
proof (induction k arbitrary: s ds)
  case 0
  then have "s' = s\<lparr>grid := grid s\<rparr>" by simp
  then show ?case by blast
next
  case (Suc k)
  from Suc.prems obtain p ds1 g where
    "place v k (s\<lparr>grid := g\<rparr>) ds1 = Returns (s', ds')"
    by (auto simp: bind_Returns_iff)
  from Suc.IH [OF this] obtain g' where "s' = s\<lparr>grid := g, grid := g'\<rparr>" by blast
  then have "s' = s\<lparr>grid := g'\<rparr>" by simp
  then show ?case by blast
qed

lemma place_count:
  assumes "place v k s ds = Returns (s', ds')" "v \<noteq> Empty"
  shows "count_cells v (grid s') = count_cells v (grid s) + k"
    and "c \<noteq> v \<Longrightarrow> c \<noteq> Empty \<Longrightarrow> count_cells c (grid s') = count_cells c (grid s)"
  using assms
proof (induction k arbitrary: s ds)
  case 0
  {
    case 1
    then show ?case by simp
  next
    case 2
    then show ?case by simp
  }
next
  case (Suc k)
  {
    case 1
    from "1.prems" obtain p ds1 g where
      f: "find_empty_cell s ds = Returns (p, ds1)" and
      g: "set_cell (grid s) p v = Returns g" and
      r: "place v k (s\<lparr>grid := g\<rparr>) ds1 = Returns (s', ds')"
      by (auto simp: bind_Returns_iff)
    from find_empty_cell_Returns [OF f] have p: "0 \<le> fst p" "0 \<le> snd p"
      and e: "cell_at (grid s) p = Returns Empty" by simp_all
    from set_cell_count [OF p e g, of v] \<open>v \<noteq> Empty\<close>
    have "count_cells v g = count_cells v (grid s) + 1" by simp
    with Suc.IH(1) [OF r \<open>v \<noteq> Empty\<close>] show ?case by simp
  next
    case 2
    from "2.prems" obtain p ds1 g where
      f: "find_empty_cell s ds = Returns (p, ds1)" and
      g: "set_cell (grid s) p v = Returns g" and
      r: "place v k (s\<lparr>grid := g\<rparr>) ds1 = Returns (s', ds')"
      by (auto simp: bind_Returns_iff)
    from find_empty_cell_Returns [OF f] have p: "0 \<le> fst p" "0 \<le> snd p"
      and e: "cell_at (grid s) p = Returns Empty" by simp_all
    from set_cell_count [OF p e g, of c] \<open>c \<noteq> v\<close> \<open>c \<noteq> Empty\<close>
    have "count_cells c g = count_cells c (grid s)" by auto
    with Suc.IH(2) [OF \<open>c \<noteq> v\<close> \<open>c \<noteq> Empty\<close> r \<open>v \<noteq> Empty\<close>] show ?case by simp
  }
qed

lemma place_shape:
  "place v k s ds = Returns (s', ds') \<Longrightarrow> map length (grid s') = map length (grid s)"
proof (induction k arbitrary: s ds)
  case 0
  then show ?case by simp
next
  case (Suc k)
  from Suc.prems obtain p ds1 g where
    f: "find_empty_cell s ds = Returns (p, ds1)" and
    g: "set_cell (grid s) p v = Returns g" and
    r: "place v k (s\<lparr>grid := g\<rparr>) ds1 = Returns (s', ds')"
    by (auto simp: bind_Returns_iff)
  from find_empty_cell_Returns [OF f] have p: "0 \<le> fst p" "0 \<le> snd p" by simp_all
  from Suc.IH [OF r] set_cell_shape [OF p g] show ?case by simp
qed

lemma count_cells_fresh:
  "c \<noteq> Empty \<Longrightarrow> count_cells c (replicate a (replicate b Empty)) = 0"
  by (induction a) (simp_all add: count_cells_def count_list_0_iff)

lemma well_formed_cong:
  assumes "well_formed s" "map length (grid s') = map length (grid s)"
    "x_size s' = x_size s" "y_size s' = y_size s"
  shows "well_formed s'"
proof -
  from assms(2) have "length (grid s') = length (grid s)" by (rule map_eq_imp_length_eq)
  moreover have "length row = nat (y_size s)" if "row \<in> set (grid s')" for row
  proof -
    from that have "length row \<in> set (map length (grid s'))" by simp
    with assms(2) have "length row \<in> length ` set (grid s)" by simp
    with assms(1) show ?thesis by (auto simp: well_formed_def list_all_iff)
  qed
  ultimately show ?thesis using assms by (simp add: well_formed_def list_all_iff)
qed

lemma schelling_model_Returns:
  assumes "schelling_model gs n a t ds = Returns (s, ds')"
  shows "x_size s = fst gs" "y_size s = snd gs" "n_agents s = n" "share_a s = a"
    "stay_threshold s = t" "segregation_shares s = []" "steps_run s = 0" "well_formed s"
    "1 < fst gs" "1 < snd gs" "1 < n" "n < fst gs * snd gs" "0 \<le> t" "t \<le> 1"
proof -
  let ?s0 = "\<lparr>x_size = fst gs, y_size = snd gs, n_agents = n, share_a = a,
      stay_threshold = t, grid = [], segregation_shares = [], steps_run = 0\<rparr>"
  let ?g0 = "replicate (nat (fst gs)) (replicate (nat (snd gs)) Empty)"
  from assms have chk: "check_inputs ?s0 = Returns ()"
    and ini: "initialize_grid ?s0 ds = Returns (s, ds')"
    by (auto simp: schelling_model_def bind_Returns_iff)
  from chk show "1 < fst gs" "1 < snd gs" "1 < n" "n < fst gs * snd gs" "0 \<le> t" "t \<le> 1"
    by (simp_all add: check_inputs_def split: if_splits)
  from ini obtain s1 ds1 where
    a: "place TypeA (nat (n div 2)) (?s0\<lparr>grid := ?g0\<rparr>) ds = Returns (s1, ds1)" and
    b: "place TypeB (nat n) s1 ds1 = Returns (s, ds')"
    by (auto simp: initialize_grid_def bind_Returns_iff)
  from place_frame [OF a] obtain g1 where s1: "s1 = ?s0\<lparr>grid := g1\<rparr>" by auto
  from place_frame [OF b] s1 obtain g2 where s: "s = ?s0\<lparr>grid := g2\<rparr>" by auto
  from s show "x_size s = fst gs" "y_size s = snd gs" "n_agents s = n" "share_a s = a"
    "stay_threshold s = t" "segregation_shares s = []" "steps_run s = 0"
    by simp_all
  have "well_formed (?s0\<lparr>grid := ?g0\<rparr>)"
    by (simp add: well_formed_def list_all_iff)
  moreover have "map length (grid s) = map length (grid (?s0\<lparr>grid := ?g0\<rparr>))"
    using place_shape [OF a] place_shape [OF b] by simp
  ultimately show "well_formed s"
    by (rule well_formed_cong) (simp_all add: s)
qed

lemma cell_at_in_bounds:
  assumes "well_formed s" "in_bounds s p"
  shows "cell_at (grid s) p = Returns (grid s ! nat (fst p) ! nat (snd p))"
proof -
  from assms have x: "nat (fst p) < length (grid s)" and nn: "0 \<le> fst p" "0 \<le> snd p"
    and y: "snd p < y_size s"
    by (auto simp: well_formed_def in_bounds_def)
  from assms x have "length (grid s ! nat (fst p)) = nat (y_size s)"
    by (simp add: well_formed_def list_all_length)
  with x y nn show ?thesis by (simp add: cell_at_nonneg)
qed

lemma count_loop_counts:
  "list_all (\<lambda>p. cell_at g p = Returns (f p)) ps \<Longrightarrow>
   count_loop g ps (a, b) =
     Returns (a + int (length (filter (\<lambda>p. f p = TypeA) ps)),
              b + int (length (filter (\<lambda>p. f p = TypeB) ps)))"
  by (induction ps arbitrary: a b) auto

lemma count_neighbors_total:
  assumes "well_formed s"
  shows "count_neighbors s pos =
     Returns (int (length (filter (\<lambda>q. grid s ! nat (fst q) ! nat (snd q) = TypeA)
                     (get_neighbor_positions s pos))),
              int (length (filter (\<lambda>q. grid s ! nat (fst q) ! nat (snd q) = TypeB)
                     (get_neighbor_positions s pos))))"
proof -
  have "list_all (\<lambda>p. cell_at (grid s) p = Returns (grid s ! nat (fst p) ! nat (snd p)))
          (get_neighbor_positions s pos)"
    unfolding list_all_iff
  proof
    fix p assume "p \<in> set (get_neighbor_positions s pos)"
    then have "in_bounds s p"
      by (auto simp: get_neighbor_positions_def in_bounds_def split: if_splits)
    with assms show "cell_at (grid s) p = Returns (grid s ! nat (fst p) ! nat (snd p))"
      by (rule cell_at_in_bounds)
  qed
  from count_loop_counts [OF this, of 0 0] show ?thesis
    by (simp add: count_neighbors_def)
qed

lemma run_one_step_config:
  assumes "run_one_step s ds = Returns (s', ds')"
  shows "\<exists>g. s' = s\<lparr>grid := g\<rparr>"
proof -
  from assms obtain chosen ds1 r where
    k: "(if r < stay_threshold s then
           bind (find_empty_cell s ds1) (\<lambda>(new_pos, ds2).
           bind (cell_at (grid s) chosen) (\<lambda>v.
           bind (set_cell (grid s) new_pos v) (\<lambda>g1.
           bind (set_cell g1 chosen Empty) (\<lambda>g2.
           Returns (s\<lparr>grid := g2\<rparr>, ds2)))))
         else Returns (s, ds1)) = Returns (s', ds')"
    by (auto simp: run_one_step_def bind_Returns_iff)
  show ?thesis
  proof (cases "r < stay_threshold s")
    case True
    with k show ?thesis by (auto simp: bind_Returns_iff)
  next
    case False
    with k have "s' = s\<lparr>grid := grid s\<rparr>" by simp
    then show ?thesis by blast
  qed
qed

lemma get_neighbor_relation_history:
  "get_neighbor_relation (s\<lparr>steps_run := n, segregation_shares := l\<rparr>) p
     = get_neighbor_relation s p"
  by (simp add: get_neighbor_relation_def count_neighbors_def get_neighbor_positions_def)

lemma segregation_loop_history:
  "segregation_loop (s\<lparr>steps_run := n, segregation_shares := l\<rparr>) ps k
     = segregation_loop s ps k"
  by (induction ps arbitrary: k)
     (simp_all add: get_neighbor_relation_history cong del: if_weak_cong)

lemma get_segregation_history:
  "get_segregation (s\<lparr>steps_run := n, segregation_shares := l\<rparr>) = get_segregation s"
  by (simp add: get_segregation_def segregation_loop_history cong del: if_weak_cong)

lemma run_loop_Suc_Returns:
  assumes "run_loop (Suc k) pe s ds out = Returns r"
  shows "\<exists>s1 ds1 share out1.
      run_one_step s ds = Returns (s1, ds1)
    \<and> get_segregation (s1\<lparr>steps_run := steps_run s1 + 1\<rparr>) = Returns share
    \<and> pe \<noteq> 0
    \<and> run_loop k pe (s1\<lparr>steps_run := steps_run s1 + 1,
                          segregation_shares := segregation_shares s1 @ [share]\<rparr>) ds1 out1
        = Returns r"
  using assms by (auto simp: bind_Returns_iff split: if_splits)

lemma run_loop_trace:
  "run_loop k pe s ds out = Returns (s', ds', out') \<Longrightarrow>
   \<exists>trace. length trace = k + 1 \<and> hd trace = (s, ds) \<and> last trace = (s', ds') \<and> chain trace
     \<and> (\<forall>i<length trace.
           steps_run (fst (trace ! i)) = steps_run s + int i
         \<and> length (segregation_shares (fst (trace ! i))) = length (segregation_shares s) + i)"
proof (induction k arbitrary: s ds out)
  case 0
  then show ?case by (intro exI [of _ "[(s, ds)]"]) simp
next
  case (Suc k)
  from run_loop_Suc_Returns [OF Suc.prems] obtain s1 ds1 share out1 where
    st: "run_one_step s ds = Returns (s1, ds1)" and
    sh: "get_segregation (s1\<lparr>steps_run := steps_run s1 + 1\<rparr>) = Returns share" and
    rest: "run_loop k pe (s1\<lparr>steps_run := steps_run s1 + 1,
             segregation_shares := segregation_shares s1 @ [share]\<rparr>) ds1 out1
           = Returns (s', ds', out')"
    by blast
  let ?s3 = "s1\<lparr>steps_run := steps_run s1 + 1,
                segregation_shares := segregation_shares s1 @ [share]\<rparr>"
  from run_one_step_config [OF st] obtain g where s1: "s1 = s\<lparr>grid := g\<rparr>" by blast
  from Suc.IH [OF rest] obtain tr where
    len: "length tr = k + 1" and hd: "hd tr = (?s3, ds1)" and lst: "last tr = (s', ds')"
    and ch: "chain tr"
    and ix: "\<forall>i<length tr.
           steps_run (fst (tr ! i)) = steps_run ?s3 + int i
         \<and> length (segregation_shares (fst (tr ! i))) = length (segregation_shares ?s3) + i"
    by blast
  from len obtain b rest' where tr: "tr = b # rest'" by (cases tr) auto
  with hd have b: "b = (?s3, ds1)" by simp
  have "get_segregation ?s3 = Returns share"
    using sh
      get_segregation_history
        [where s = s1 and n = "steps_run s1 + 1" and l = "segregation_shares s1 @ [share]"]
      get_segregation_history
        [where s = s1 and n = "steps_run s1 + 1" and l = "segregation_shares s1"]
    by simp
  moreover have "?s3 = s1\<lparr>steps_run := steps_run s + 1,
                 segregation_shares := segregation_shares s @ [share]\<rparr>"
    using s1 by simp
  ultimately have it: "iteration s ds ?s3 ds1"
    unfolding iteration_def using st by blast
  let ?trace = "(s, ds) # tr"
  have "length ?trace = Suc k + 1" using len by simp
  moreover have "hd ?trace = (s, ds)" by simp
  moreover have "last ?trace = (s', ds')" using lst tr by simp
  moreover have "chain ?trace" using it ch tr b by simp
  moreover have "\<forall>i<length ?trace.
           steps_run (fst (?trace ! i)) = steps_run s + int i
         \<and> length (segregation_shares (fst (?trace ! i))) = length (segregation_shares s) + i"
  proof (intro allI impI)
    fix i assume i: "i < length ?trace"
    show "steps_run (fst (?trace ! i)) = steps_run s + int i
         \<and> length (segregation_shares (fst (?trace ! i))) = length (segregation_shares s) + i"
    proof (cases i)
      case 0
      then show ?thesis by simp
    next
      case (Suc j)
      with i have "j < length tr" by simp
      with ix have "steps_run (fst (tr ! j)) = steps_run ?s3 + int j
         \<and> length (segregation_shares (fst (tr ! j))) = length (segregation_shares ?s3) + j"
        by blast
      with Suc s1 show ?thesis by simp
    qed
  qed
  ultimately show ?case by blast
qed

lemma count_loop_mono:
  "count_loop g ps (a, b) = Returns (a', b') \<Longrightarrow> a \<le> a' \<and> b \<le> b'"
proof (induction ps arbitrary: a b)
  case Nil
  then show ?case by simp
next
  case (Cons p ps)
  from Cons.prems obtain c where
    "(if c = TypeA then count_loop g ps (a + 1, b)
      else if c = TypeB then count_loop g ps (a, b + 1)
      else count_loop g ps (a, b)) = Returns (a', b')"
    by (auto simp: bind_Returns_iff)
  then show ?case
    using Cons.IH [of "a + 1" b] Cons.IH [of a "b + 1"] Cons.IH [of a b]
    by (auto split: if_splits)
qed

lemma get_neighbor_relation_nonneg:
  assumes "get_neighbor_relation s p = Returns r"
  shows "0 \<le> r"
proof -
  from assms obtain a b c where
    n: "count_neighbors s p = Returns (a, b)" and
    r: "(if c = TypeA then
           (if b = 0 then Returns 1 else Returns (of_int a / of_int b))
         else if c = TypeB then
           (if a = 0 then Returns 1 else Returns (of_int b / of_int a))
         else Returns 1) = Returns r"
    by (auto simp: get_neighbor_relation_def bind_Returns_iff)
  from n count_loop_mono [of "grid s" _ 0 0 a b] have "0 \<le> a" "0 \<le> b"
    by (simp_all add: count_neighbors_def)
  with r show ?thesis by (auto split: if_splits)
qed

lemma run_one_step_no_move:
  assumes "stay_threshold s \<le> 0" "run_one_step s ds = Returns (s', ds')"
  shows "s' = s"
proof -
  from assms(2) obtain chosen ds1 r where
    r: "get_neighbor_relation s chosen = Returns r" and
    k: "(if r < stay_threshold s then
           bind (find_empty_cell s ds1) (\<lambda>(new_pos, ds2).
           bind (cell_at (grid s) chosen) (\<lambda>v.
           bind (set_cell (grid s) new_pos v) (\<lambda>g1.
           bind (set_cell g1 chosen Empty) (\<lambda>g2.
           Returns (s\<lparr>grid := g2\<rparr>, ds2)))))
         else Returns (s, ds1)) = Returns (s', ds')"
    by (auto simp: run_one_step_def bind_Returns_iff)
  from get_neighbor_relation_nonneg [OF r] assms(1) have "\<not> r < stay_threshold s" by simp
  with k show ?thesis by simp
qed

lemma get_neighbor_relation_total:
  assumes "well_formed s" "in_bounds s p"
  shows "\<exists>r. get_neighbor_relation s p = Returns r"
  by (simp add: get_neighbor_relation_def count_neighbors_total [OF assms(1)]
      cell_at_in_bounds [OF assms])

lemma segregation_loop_threshold_zero:
  assumes "well_formed s" "stay_threshold s \<le> 0"
  shows "list_all (in_bounds s) ps \<Longrightarrow>
     segregation_loop s ps k =
       Returns (k + int (length (filter (\<lambda>p. grid s ! nat (fst p) ! nat (snd p) \<noteq> Empty) ps)))"
proof (induction ps arbitrary: k)
  case Nil
  then show ?case by simp
next
  case (Cons p ps)
  then have p: "in_bounds s p" and ps: "list_all (in_bounds s) ps" by simp_all
  from get_neighbor_relation_total [OF assms(1) p] obtain r where
    r: "get_neighbor_relation s p = Returns r" by blast
  from get_neighbor_relation_nonneg [OF r] assms(2) have "stay_threshold s \<le> r" by simp
  with r show ?case
    by (simp add: cell_at_in_bounds [OF assms(1) p] Cons.IH [OF ps])
qed

lemma grid_positions_in_bounds:
  assumes "well_formed s"
  shows "list_all (in_bounds s) (grid_positions (grid s))"
proof (cases "grid s")
  case Nil
  then show ?thesis by (simp add: grid_positions_def)
next
  case (Cons row0 rest)
  with assms have "length row0 = nat (y_size s)" "length (grid s) = nat (x_size s)"
    by (simp_all add: well_formed_def)
  with Cons show ?thesis
    by (auto simp: grid_positions_def list_all_iff in_bounds_def)
qed

lemma grid_positions_cells:
  assumes "well_formed s"
  shows "map (\<lambda>p. grid s ! nat (fst p) ! nat (snd p)) (grid_positions (grid s)) = concat (grid s)"
proof (cases "grid s")
  case Nil
  then show ?thesis by (simp add: grid_positions_def)
next
  case (Cons row0 rest)
  with assms have r0: "length row0 = nat (y_size s)" by (simp add: well_formed_def)
  have rows: "length (grid s ! i) = length row0" if "i < length (grid s)" for i
    using assms that r0 by (simp add: well_formed_def list_all_length)
  have "map (\<lambda>p. grid s ! nat (fst p) ! nat (snd p)) (grid_positions (grid s))
      = concat (map (\<lambda>i. map (\<lambda>j. grid s ! i ! j) [0..<length row0]) [0..<length (grid s)])"
    using Cons by (simp add: grid_positions_def map_concat comp_def)
  also have "\<dots> = concat (map (\<lambda>i. grid s ! i) [0..<length (grid s)])"
    by (rule arg_cong [where f = concat], rule map_cong, rule refl)
       (simp add: rows [symmetric] map_nth)
  also have "\<dots> = concat (grid s)" by (simp add: map_nth)
  finally show ?thesis .
qed

lemma get_segregation_threshold_zero:
  assumes "well_formed s" "stay_threshold s \<le> 0" "n_agents s \<noteq> 0"
  shows "get_segregation s = Returns (of_nat (occupied (grid s)) / of_int (n_agents s))"
proof -
  have "length (filter (\<lambda>p. grid s ! nat (fst p) ! nat (snd p) \<noteq> Empty)
                (grid_positions (grid s)))
      = length (filter (\<lambda>c. c \<noteq> Empty)
                (map (\<lambda>p. grid s ! nat (fst p) ! nat (snd p)) (grid_positions (grid s))))"
    by (simp add: filter_map comp_def)
  also have "\<dots> = occupied (grid s)"
    by (simp add: grid_positions_cells [OF assms(1)] occupied_def)
  finally have n: "length (filter (\<lambda>p. grid s ! nat (fst p) ! nat (snd p) \<noteq> Empty)
                (grid_positions (grid s))) = occupied (grid s)" .
  show ?thesis
    using assms(3)
    by (simp add: get_segregation_def n
        segregation_loop_threshold_zero [OF assms(1,2) grid_positions_in_bounds [OF assms(1)]])
qed

lemma schelling_model_counts:
  assumes "schelling_model gs n a t ds = Returns (s, ds')"
  shows "int (count_cells TypeA (grid s)) = n div 2
       \<and> int (count_cells TypeB (grid s)) = n
       \<and> int (occupied (grid s)) = n div 2 + n"
proof -
  let ?s0 = "\<lparr>x_size = fst gs, y_size = snd gs, n_agents = n, share_a = a,
      stay_threshold = t, grid = [], segregation_shares = [], steps_run = 0\<rparr>"
  let ?g0 = "replicate (nat (fst gs)) (replicate (nat (snd gs)) Empty)"
  from assms have ini: "initialize_grid ?s0 ds = Returns (s, ds')"
    by (auto simp: schelling_model_def bind_Returns_iff)
  from schelling_model_Returns(11) [OF assms] have n: "1 < n" .
  from ini obtain s1 ds1 where
    a: "place TypeA (nat (n div 2)) (?s0\<lparr>grid := ?g0\<rparr>) ds = Returns (s1, ds1)" and
    b: "place TypeB (nat n) s1 ds1 = Returns (s, ds')"
    by (auto simp: initialize_grid_def bind_Returns_iff)
  from place_count(1) [OF a] have a1: "count_cells TypeA (grid s1) = nat (n div 2)"
    by (simp add: count_cells_fresh)
  from place_count(2) [OF a, of TypeB] have b1: "count_cells TypeB (grid s1) = 0"
    by (simp add: count_cells_fresh)
  from place_count(1) [OF b] b1 have b2: "count_cells TypeB (grid s) = nat n" by simp
  from place_count(2) [OF b, of TypeA] a1 have a2: "count_cells TypeA (grid s) = nat (n div 2)"
    by simp
  from a2 b2 n show ?thesis by (simp add: occupied_count_cells)
qed

lemma run_loop_threshold_zero:
  assumes "well_formed s" "stay_threshold s \<le> 0" "n_agents s \<noteq> 0"
    "run_loop k pe s ds out = Returns (s', ds', out')"
  shows "s' = s\<lparr>steps_run := steps_run s + int k,
                segregation_shares := segregation_shares s
                  @ replicate k (of_nat (occupied (grid s)) / of_int (n_agents s))\<rparr>"
  using assms
proof (induction k arbitrary: s ds out)
  case 0
  then show ?case by simp
next
  case (Suc k)
  let ?q = "rat_of_nat (occupied (grid s)) / of_int (n_agents s)"
  from run_loop_Suc_Returns [OF Suc.prems(4)] obtain s1 ds1 share out1 where
    st: "run_one_step s ds = Returns (s1, ds1)" and
    sh: "get_segregation (s1\<lparr>steps_run := steps_run s1 + 1\<rparr>) = Returns share" and
    rest: "run_loop k pe (s1\<lparr>steps_run := steps_run s1 + 1,
             segregation_shares := segregation_shares s1 @ [share]\<rparr>) ds1 out1
           = Returns (s', ds', out')"
    by blast
  from run_one_step_no_move [OF Suc.prems(2) st] have s1: "s1 = s" .
  have "get_segregation (s\<lparr>steps_run := steps_run s + 1\<rparr>) = get_segregation s"
    using get_segregation_history
      [where s = s and n = "steps_run s + 1" and l = "segregation_shares s"]
    by simp
  with sh s1 get_segregation_threshold_zero [OF Suc.prems(1-3)] have share: "share = ?q"
    by simp
  let ?s3 = "s\<lparr>steps_run := steps_run s + 1,
                segregation_shares := segregation_shares s @ [?q]\<rparr>"
  from Suc.prems(1-3) have p: "well_formed ?s3" "stay_threshold ?s3 \<le> 0" "n_agents ?s3 \<noteq> 0"
    by (simp_all add: well_formed_def)
  from rest s1 share have "run_loop k pe ?s3 ds1 out1 = Returns (s', ds', out')" by simp
  from Suc.IH [OF p this] show ?case
    by (simp add: replicate_append_same)
qed

lemma length_concat_well_formed:
  assumes "well_formed s"
  shows "length (concat (grid s)) = nat (x_size s) * nat (y_size s)"
proof -
  have h: "list_all (\<lambda>row. length row = m) g \<Longrightarrow> length (concat g) = length g * m"
    for g :: "cell list list" and m
    by (induction g) simp_all
  from assms have "list_all (\<lambda>row. length row = nat (y_size s)) (grid s)"
    and "length (grid s) = nat (x_size s)"
    by (simp_all add: well_formed_def)
  with h [of "nat (y_size s)" "grid s"] show ?thesis by simp
qed

lemma empty_plus_occupied:
  "count_cells Empty g + occupied g = length (concat g)"
proof -
  have "count_list xs Empty + length (filter (\<lambda>c. c \<noteq> Empty) xs) = length xs"
    for xs :: "cell list"
    by (induction xs) simp_all
  then show ?thesis by (simp add: count_cells_def occupied_def)
qed

lemma no_empty_cell:
  assumes "count_cells Empty g = 0" "cell_at g p = Returns c" "0 \<le> fst p" "0 \<le> snd p"
  shows "c \<noteq> Empty"
proof -
  from assms(2-4) have x: "nat (fst p) < length g" and y: "nat (snd p) < length (g ! nat (fst p))"
    and c: "c = g ! nat (fst p) ! nat (snd p)"
    by (auto simp: cell_at_nonneg split: if_splits)
  from x y have "g ! nat (fst p) ! nat (snd p) \<in> set (concat g)"
    by (auto intro!: bexI [of _ "g ! nat (fst p)"])
  moreover from assms(1) have "Empty \<notin> set (concat g)"
    by (simp add: count_cells_def count_list_0_iff)
  ultimately show ?thesis using c by auto
qed

lemma find_empty_cell_full_grid:
  assumes "well_formed s" "0 < x_size s" "0 < y_size s" "count_cells Empty (grid s) = 0"
  shows "find_empty_cell s ds = Starved"
proof (induction ds rule: length_induct)
  case (1 ds)
  from assms(1,2) have len: "int (length (grid s)) = x_size s" by (simp add: well_formed_def)
  with assms(2) obtain row0 rest where g: "grid s = row0 # rest" by (cases "grid s") auto
  with assms(1,3) have len0: "int (length row0) = y_size s" by (simp add: well_formed_def)
  have r0: "getitem (grid s) 0 = Returns row0" using g by (simp add: getitem_nonneg)
  from len0 assms(3) have ne0: "row0 \<noteq> []" by auto
  show ?case
  proof (cases ds)
    case Nil
    with assms(2) len show ?thesis
      by (subst find_empty_cell.simps) (simp add: randint_def)
  next
    case ds: (Cons d1 ds1)
    let ?x = "int d1 mod x_size s"
    have x: "randint 0 (int (length (grid s)) - 1) ds = Returns (?x, ds1)"
      using assms(2) len ds by (simp add: randint_def)
    show ?thesis
    proof (cases ds1)
      case Nil
      with ne0 x r0 show ?thesis
        by (subst find_empty_cell.simps) (simp add: randint_def)
    next
      case (Cons d2 ds2)
      let ?y = "int d2 mod y_size s"
      have y: "randint 0 (int (length row0) - 1) ds1 = Returns (?y, ds2)"
        using assms(3) len0 Cons by (simp add: randint_def)
      have inb: "in_bounds s (?x, ?y)"
        using assms(2,3) by (simp add: in_bounds_def)
      from cell_at_in_bounds [OF assms(1) inb] obtain c where
        c: "cell_at (grid s) (?x, ?y) = Returns c" by blast
      from no_empty_cell [OF assms(4) c] inb have ne: "c \<noteq> Empty"
        by (simp add: in_bounds_def)
      from ds Cons have "length ds2 < length ds" by simp
      with 1 have "find_empty_cell s ds2 = Starved" by blast
      with x r0 y c ne show ?thesis
        by (subst find_empty_cell.simps) simp
    qed
  qed
qed

text \<open>
  Every model that construction returns is well-formed
  (\<open>schelling_model_Returns\<close>), and steps and runs keep a model well-formed.
\<close>

lemma run_one_step_well_formed:
  assumes "well_formed s" "run_one_step s ds = Returns (s', ds')"
  shows "well_formed s'"
proof -
  from assms(2) obtain chosen ds1 r where
    f: "find_full_cell s ds = Returns (chosen, ds1)" and
    k: "(if r < stay_threshold s then
           bind (find_empty_cell s ds1) (\<lambda>(new_pos, ds2).
           bind (cell_at (grid s) chosen) (\<lambda>v.
           bind (set_cell (grid s) new_pos v) (\<lambda>g1.
           bind (set_cell g1 chosen Empty) (\<lambda>g2.
           Returns (s\<lparr>grid := g2\<rparr>, ds2)))))
         else Returns (s, ds1)) = Returns (s', ds')"
    by (auto simp: run_one_step_def bind_Returns_iff)
  show ?thesis
  proof (cases "r < stay_threshold s")
    case False
    with k assms(1) show ?thesis by simp
  next
    case True
    with k obtain new ds2 v g1 g2 where
      e: "find_empty_cell s ds1 = Returns (new, ds2)" and
      g1: "set_cell (grid s) new v = Returns g1" and
      g2: "set_cell g1 chosen Empty = Returns g2" and
      s': "s' = s\<lparr>grid := g2\<rparr>"
      by (auto simp: bind_Returns_iff)
    from find_empty_cell_Returns [OF e] have nn: "0 \<le> fst new" "0 \<le> snd new" by simp_all
    from find_full_cell_Returns [OF f] have cn: "0 \<le> fst chosen" "0 \<le> snd chosen"
      by (simp_all add: in_bounds_def)
    have "map length (grid s') = map length (grid s)"
      using set_cell_shape [OF nn g1] set_cell_shape [OF cn g2] s' by simp
    with assms(1) show ?thesis by (rule well_formed_cong) (simp_all add: s')
  qed
qed

lemma run_loop_well_formed:
  "well_formed s \<Longrightarrow> run_loop k pe s ds out = Returns (s', ds', out') \<Longrightarrow> well_formed s'"
proof (induction k arbitrary: s ds out)
  case 0
  then show ?case by simp
next
  case (Suc k)
  from run_loop_Suc_Returns [OF Suc.prems(2)] obtain s1 ds1 share out1 where
    st: "run_one_step s ds = Returns (s1, ds1)" and
    rest: "run_loop k pe (s1\<lparr>steps_run := steps_run s1 + 1,
             segregation_shares := segregation_shares s1 @ [share]\<rparr>) ds1 out1
           = Returns (s', ds', out')"
    by blast
  from run_one_step_well_formed [OF Suc.prems(1) st]
  have "well_formed (s1\<lparr>steps_run := steps_run s1 + 1,
             segregation_shares := segregation_shares s1 @ [share]\<rparr>)"
    by (simp add: well_formed_def)
  from Suc.IH [OF this rest] show ?case .
qed

lemma run_well_formed:
  assumes "well_formed s" "run s steps pae pe ds = Returns (s', ds', out)"
  shows "well_formed s'"
proof -
  from assms(2) obtain out0 where
    "run_loop (nat steps) pe s ds [] = Returns (s', ds', out0)"
    by (auto simp: run_def bind_Returns_iff)
  from run_loop_well_formed [OF assms(1) this] show ?thesis .
qed

text \<open>
  Every computation of the engine reads a prefix of the random source.
\<close>

lemma reads_prefixI:
  assumes "\<And>ds v rest. f ds = Returns (v, rest) \<Longrightarrow>
     \<exists>used. ds = used @ rest \<and> (\<forall>more. f (used @ more) = Returns (v, more))"
  shows "reads_prefix f"
  using assms unfolding reads_prefix_def by blast

lemma reads_prefixD:
  assumes "reads_prefix f" "f ds = Returns (v, rest)"
  obtains used where "ds = used @ rest" "\<And>more. f (used @ more) = Returns (v, more)"
  using assms unfolding reads_prefix_def by blast

lemma reads_prefix_randint: "reads_prefix (randint a b)"
proof (rule reads_prefixI)
  fix ds v rest assume h: "randint a b ds = Returns (v, rest)"
  then obtain d where d: "ds = d # rest" and ab: "\<not> b < a" and v: "v = a + int d mod (b - a + 1)"
    by (auto simp: randint_def split: if_splits list.splits)
  have "ds = [d] @ rest" using d by simp
  moreover have "\<forall>more. randint a b ([d] @ more) = Returns (v, more)"
    using ab v by (simp add: randint_def)
  ultimately show "\<exists>used. ds = used @ rest \<and> (\<forall>more. randint a b (used @ more) = Returns (v, more))"
    by blast
qed






lemma reads_prefix_find_full_cell: "reads_prefix (find_full_cell s)"
proof (rule reads_prefixI)
  fix ds p rest
  show "find_full_cell s ds = Returns (p, rest) \<Longrightarrow>
     \<exists>used. ds = used @ rest \<and> (\<forall>more. find_full_cell s (used @ more) = Returns (p, more))"
  proof (induction ds rule: length_induct)
    case (1 ds)
    from "1.prems" obtain x ds1 y ds2 c where
      x: "randint 0 (x_size s - 1) ds = Returns (x, ds1)" and
      y: "randint 0 (y_size s - 1) ds1 = Returns (y, ds2)" and
      c: "cell_at (grid s) (x, y) = Returns c" and
      k: "(if c \<noteq> Empty then Returns ((x, y), ds2) else find_full_cell s ds2) = Returns (p, rest)"
      by (subst (asm) find_full_cell.simps) (auto simp: bind_Returns_iff)
    from reads_prefixD [OF reads_prefix_randint x] obtain u1 where
      u1: "ds = u1 @ ds1" "\<And>more. randint 0 (x_size s - 1) (u1 @ more) = Returns (x, more)"
      by blast
    from reads_prefixD [OF reads_prefix_randint y] obtain u2 where
      u2: "ds1 = u2 @ ds2" "\<And>more. randint 0 (y_size s - 1) (u2 @ more) = Returns (y, more)"
      by blast
    show ?case
    proof (cases "c = Empty")
      case False
      with k have e: "p = (x, y)" "rest = ds2" by simp_all
      have "ds = (u1 @ u2) @ rest" using u1(1) u2(1) e by simp
      moreover have "find_full_cell s ((u1 @ u2) @ more) = Returns (p, more)" for more
        using u1(2) u2(2) c False e by (subst find_full_cell.simps) simp
      ultimately show ?thesis by blast
    next
      case True
      with k have rec: "find_full_cell s ds2 = Returns (p, rest)" by simp
      from randint_consumes [OF x] randint_consumes [OF y] have "length ds2 < length ds" by simp
      with 1 rec obtain u3 where
        u3: "ds2 = u3 @ rest" "\<forall>more. find_full_cell s (u3 @ more) = Returns (p, more)"
        by blast
      have "ds = (u1 @ u2 @ u3) @ rest" using u1(1) u2(1) u3(1) by simp
      moreover have "find_full_cell s ((u1 @ u2 @ u3) @ more) = Returns (p, more)" for more
        using u1(2) [of "u2 @ u3 @ more"] u2(2) [of "u3 @ more"] u3(2) c True
        by (subst find_full_cell.simps) simp
      ultimately show ?thesis by blast
    qed
  qed
qed









section \<open>Neighbor positions\<close>

text \<open>
  C8. On a grid with \<open>x_size > 1\<close> and \<open>y_size > 1\<close>, the neighbor positions of an
  in-bounds position \<open>(x, y)\<close> are between 3 and 8 distinct positions, all within the
  grid bounds, never \<open>(x, y)\<close> itself; a corner has exactly 3 and an interior position
  exactly 8 (there is no wraparound).
\<close>

theorem get_neighbor_positions_between_3_and_8:
  assumes "1 < x_size s" "1 < y_size s" "in_bounds s (x, y)"
  shows "3 \<le> length (get_neighbor_positions s (x, y))
       \<and> length (get_neighbor_positions s (x, y)) \<le> 8
       \<and> list_all (in_bounds s) (get_neighbor_positions s (x, y))
       \<and> (x, y) \<notin> set (get_neighbor_positions s (x, y))
       \<and> distinct (get_neighbor_positions s (x, y))
       \<and> (if (x = 0 \<or> x = x_size s - 1) \<and> (y = 0 \<or> y = y_size s - 1)
          then length (get_neighbor_positions s (x, y)) = 3 else True)
       \<and> (if 0 < x \<and> x < x_size s - 1 \<and> 0 < y \<and> y < y_size s - 1
          then length (get_neighbor_positions s (x, y)) = 8 else True)"
  using assms
  by (simp add: get_neighbor_positions_def in_bounds_def)

theorem get_neighbor_positions_between_3_and_8_witness:
  "1 < x_size (\<lparr>x_size = 3, y_size = 3, n_agents = 2, share_a = 0, stay_threshold = 0,
        grid = [], segregation_shares = [], steps_run = 0\<rparr>)
   \<and> in_bounds (\<lparr>x_size = 3, y_size = 3, n_agents = 2, share_a = 0, stay_threshold = 0,
        grid = [], segregation_shares = [], steps_run = 0\<rparr>) (0, 2)
   \<and> length (get_neighbor_positions (\<lparr>x_size = 3, y_size = 3, n_agents = 2, share_a = 0,
        stay_threshold = 0, grid = [], segregation_shares = [], steps_run = 0\<rparr>) (0, 2)) = 3
   \<and> (0, 2) \<notin> set (get_neighbor_positions (\<lparr>x_size = 3, y_size = 3, n_agents = 2,
        share_a = 0, stay_threshold = 0, grid = [], segregation_shares = [],
        steps_run = 0\<rparr>) (0, 2))"
  using get_neighbor_positions_between_3_and_8
    [of "\<lparr>x_size = 3, y_size = 3, n_agents = 2, share_a = 0, stay_threshold = 0,
        grid = [], segregation_shares = [], steps_run = 0\<rparr>" 0 2]
  by (simp add: in_bounds_def)

section \<open>Neighbor relation\<close>

lemma ratio_three:
  "well_formed ratio_grid \<and> in_bounds ratio_grid (1, 1)
   \<and> get_neighbor_relation ratio_grid (1, 1) = Returns 3"
  by code_simp

text \<open>
  C7. At an in-bounds position of a well-formed model, the neighbor relation is \<open>1\<close>
  for an empty cell; for a cell of type A it is \<open>1\<close> when no neighbor is of type B
  (whatever the number of A neighbors) and otherwise the A count divided by the B count;
  symmetrically for type B. The counts are the numbers of neighbor positions holding
  each type. It is a ratio of like to unlike neighbors and can exceed \<open>1\<close>.
  Constructed models and the states that \<^verbatim>\<open>run\<close> reaches from them are well-formed
  (\<open>schelling_model_Returns\<close>, \<open>run_well_formed\<close>).
\<close>

theorem get_neighbor_relation_like_to_unlike_ratio:
  assumes "well_formed s" "in_bounds s pos"
  shows "(\<exists>c a_count b_count.
       cell_at (grid s) pos = Returns c
     \<and> count_neighbors s pos = Returns (a_count, b_count)
     \<and> a_count = int (length (filter (\<lambda>q. cell_at (grid s) q = Returns TypeA)
                                (get_neighbor_positions s pos)))
     \<and> b_count = int (length (filter (\<lambda>q. cell_at (grid s) q = Returns TypeB)
                                (get_neighbor_positions s pos)))
     \<and> get_neighbor_relation s pos = Returns
          (case c of
             Empty \<Rightarrow> 1
           | TypeA \<Rightarrow> if b_count = 0 then 1 else of_int a_count / of_int b_count
           | TypeB \<Rightarrow> if a_count = 0 then 1 else of_int b_count / of_int a_count))
   \<and> (\<exists>s' pos' r. well_formed s' \<and> in_bounds s' pos'
           \<and> get_neighbor_relation s' pos' = Returns r \<and> 1 < r)"
proof
  let ?f = "\<lambda>q. grid s ! nat (fst q) ! nat (snd q)"
  let ?ps = "get_neighbor_positions s pos"
  have inb: "in_bounds s q" if "q \<in> set ?ps" for q
    using that by (auto simp: get_neighbor_positions_def in_bounds_def split: if_splits)
  have eq: "filter (\<lambda>q. cell_at (grid s) q = Returns v) ?ps = filter (\<lambda>q. ?f q = v) ?ps" for v
    by (rule filter_cong) (simp_all add: cell_at_in_bounds [OF assms(1) inb])
  note c = cell_at_in_bounds [OF assms]
  note n = count_neighbors_total [OF assms(1), of pos]
  show "\<exists>c a_count b_count.
       cell_at (grid s) pos = Returns c
     \<and> count_neighbors s pos = Returns (a_count, b_count)
     \<and> a_count = int (length (filter (\<lambda>q. cell_at (grid s) q = Returns TypeA)
                                (get_neighbor_positions s pos)))
     \<and> b_count = int (length (filter (\<lambda>q. cell_at (grid s) q = Returns TypeB)
                                (get_neighbor_positions s pos)))
     \<and> get_neighbor_relation s pos = Returns
          (case c of
             Empty \<Rightarrow> 1
           | TypeA \<Rightarrow> if b_count = 0 then 1 else of_int a_count / of_int b_count
           | TypeB \<Rightarrow> if a_count = 0 then 1 else of_int b_count / of_int a_count)"
    unfolding eq
    by (cases "?f pos") (simp_all add: c n get_neighbor_relation_def)
  have "(1::rat) < 3" by simp
  with ratio_three
  show "\<exists>s' pos' r. well_formed s' \<and> in_bounds s' pos'
           \<and> get_neighbor_relation s' pos' = Returns r \<and> 1 < r"
    by blast
qed

theorem get_neighbor_relation_like_to_unlike_ratio_witness:
  "well_formed ratio_grid \<and> in_bounds ratio_grid (1, 1)
   \<and> cell_at (grid ratio_grid) (1, 1) = Returns TypeA
   \<and> count_neighbors ratio_grid (1, 1) = Returns (3, 1)
   \<and> get_neighbor_relation ratio_grid (1, 1) = Returns 3"
proof -
  have wf: "well_formed ratio_grid" and inb: "in_bounds ratio_grid (1, 1)"
    by code_simp+
  from get_neighbor_relation_like_to_unlike_ratio [OF wf inb] obtain c a b where
    "cell_at (grid ratio_grid) (1, 1) = Returns c"
    "count_neighbors ratio_grid (1, 1) = Returns (a, b)"
    "get_neighbor_relation ratio_grid (1, 1) = Returns
          (case c of
             Empty \<Rightarrow> 1
           | TypeA \<Rightarrow> if b = 0 then 1 else of_int a / of_int b
           | TypeB \<Rightarrow> if a = 0 then 1 else of_int b / of_int a)"
    by blast
  moreover have "cell_at (grid ratio_grid) (1, 1) = Returns TypeA"
    "count_neighbors ratio_grid (1, 1) = Returns (3, 1)"
    by code_simp+
  ultimately have "get_neighbor_relation ratio_grid (1, 1) = Returns 3" by simp
  with wf inb \<open>cell_at (grid ratio_grid) (1, 1) = Returns TypeA\<close>
    \<open>count_neighbors ratio_grid (1, 1) = Returns (3, 1)\<close>
  show ?thesis by simp
qed

section \<open>Construction\<close>

lemma small_model_constructed:
  "schelling_model (2, 2) 2 (1 / 2) (1 / 2) [0, 0, 0, 1, 1, 0] = Returns (small_model, [])"
  by code_simp

text \<open>
  C5. Whenever construction returns, the grid holds exactly \<open>floor (n_agents / 2)\<close> cells
  of type A and exactly \<open>n_agents\<close> cells of type B, so \<open>floor (n_agents / 2) + n_agents\<close>
  agents have been placed, not \<open>n_agents\<close>.
\<close>

theorem initialize_grid_places_half_A_and_all_B:
  assumes "schelling_model gs n a t ds = Returns (s, ds')"
  shows "int (count_cells TypeA (grid s)) = n div 2
       \<and> int (count_cells TypeB (grid s)) = n
       \<and> int (occupied (grid s)) = n div 2 + n"
  using assms by (rule schelling_model_counts)

theorem initialize_grid_places_half_A_and_all_B_witness:
  "\<exists>m. schelling_model (2, 2) 2 (1 / 2) (1 / 2) [0, 0, 0, 1, 1, 0] = Returns (m, [])
     \<and> int (count_cells TypeA (grid m)) = 1
     \<and> int (count_cells TypeB (grid m)) = 2
     \<and> int (occupied (grid m)) = 3"
  using initialize_grid_places_half_A_and_all_B [OF small_model_constructed]
    small_model_constructed
  by simp

section \<open>The step engine\<close>

lemma small_step:
  "run_one_step small_model [0, 0, 1, 1]
     = Returns (small_model\<lparr>grid := [[Empty, TypeB], [TypeB, TypeA]]\<rparr>, [])"
  by code_simp

lemma small_model_ready:
  "well_formed small_model \<and> 0 < occupied (grid small_model)
   \<and> 0 < count_cells Empty (grid small_model)"
  by code_simp

lemma randint_hit:
  assumes "0 \<le> v" "v < m"
  shows "randint 0 (m - 1) (nat v # ext) = Returns (v, ext)"
  using assms by (simp add: randint_def)

lemma find_full_cell_hit:
  assumes "in_bounds s c" "cell_at (grid s) c = Returns v" "v \<noteq> Empty"
  shows "find_full_cell s (nat (fst c) # nat (snd c) # ext) = Returns (c, ext)"
proof -
  from assms(1) have x: "0 \<le> fst c" "fst c < x_size s" and y: "0 \<le> snd c" "snd c < y_size s"
    by (simp_all add: in_bounds_def)
  show ?thesis
    using assms(2,3)
    by (subst find_full_cell.simps) (simp add: randint_hit [OF x] randint_hit [OF y])
qed

lemma find_empty_cell_hit:
  assumes "well_formed s" "in_bounds s e" "cell_at (grid s) e = Returns Empty"
  shows "find_empty_cell s (nat (fst e) # nat (snd e) # ext) = Returns (e, ext)"
proof -
  from assms(2) have x: "0 \<le> fst e" "fst e < x_size s" and y: "0 \<le> snd e" "snd e < y_size s"
    by (simp_all add: in_bounds_def)
  from assms(1) x have len: "int (length (grid s)) = x_size s" by (simp add: well_formed_def)
  with x obtain row0 rest where g: "grid s = row0 # rest" by (cases "grid s") auto
  with assms(1) y have len0: "int (length row0) = y_size s" by (simp add: well_formed_def)
  have r0: "getitem (grid s) 0 = Returns row0" using g by (simp add: getitem_nonneg)
  show ?thesis
    using assms(3) x y
    by (subst find_empty_cell.simps)
       (simp add: len len0 r0 randint_hit [OF x] randint_hit [OF y])
qed

lemma cell_position:
  assumes "well_formed s" "c \<in> set (concat (grid s))"
  shows "\<exists>p. in_bounds s p \<and> cell_at (grid s) p = Returns c"
proof -
  from assms(2) obtain row where row: "row \<in> set (grid s)" "c \<in> set row" by auto
  then obtain i j where i: "i < length (grid s)" "grid s ! i = row"
    and j: "j < length row" "row ! j = c"
    by (auto simp: in_set_conv_nth)
  from assms(1) row(1) have "length row = nat (y_size s)" "length (grid s) = nat (x_size s)"
    by (simp_all add: well_formed_def list_all_iff)
  with i j have "int i < x_size s" "int j < y_size s" by linarith+
  then have inb: "in_bounds s (int i, int j)" by (simp add: in_bounds_def)
  from cell_at_in_bounds [OF assms(1) inb] i j
  have "cell_at (grid s) (int i, int j) = Returns c" by simp
  with inb show ?thesis by blast
qed

lemma occupied_position:
  assumes "well_formed s" "0 < occupied (grid s)"
  shows "\<exists>p v. in_bounds s p \<and> cell_at (grid s) p = Returns v \<and> v \<noteq> Empty"
proof -
  from assms(2) have "filter (\<lambda>c. c \<noteq> Empty) (concat (grid s)) \<noteq> []"
    by (simp add: occupied_def)
  then obtain v where "v \<in> set (concat (grid s))" "v \<noteq> Empty"
    by (metis (mono_tags, lifting) filter_False)
  with cell_position [OF assms(1)] show ?thesis by blast
qed

lemma empty_position:
  assumes "well_formed s" "0 < count_cells Empty (grid s)"
  shows "\<exists>p. in_bounds s p \<and> cell_at (grid s) p = Returns Empty"
proof -
  from assms(2) have "Empty \<in> set (concat (grid s))"
    by (metis count_cells_def count_list_0_iff less_numeral_extra(3))
  with cell_position [OF assms(1)] show ?thesis by blast
qed

lemma find_full_cell_extends:
  assumes "well_formed s" "in_bounds s c" "cell_at (grid s) c = Returns v" "v \<noteq> Empty"
  shows "\<exists>ext p rest. find_full_cell s (ds @ ext) = Returns (p, rest)"
proof (induction ds rule: length_induct)
  case (1 ds)
  from assms(2) have sz: "0 < x_size s" "0 < y_size s" by (auto simp: in_bounds_def)
  note hit = find_full_cell_hit [OF assms(2-4)]
  show ?case
  proof (cases ds)
    case Nil
    with hit [of "[]"] show ?thesis by (intro exI [of _ "[nat (fst c), nat (snd c)]"]) auto
  next
    case ds: (Cons d1 ds1)
    let ?x = "int d1 mod x_size s"
    have x: "randint 0 (x_size s - 1) (d1 # tl) = Returns (?x, tl)" for tl
      using sz by (simp add: randint_def)
    show ?thesis
    proof (cases ds1)
      case Nil
      let ?p = "(?x, 0::int)"
      have inb: "in_bounds s ?p" using sz by (simp add: in_bounds_def)
      from cell_at_in_bounds [OF assms(1) inb] obtain w where
        w: "cell_at (grid s) ?p = Returns w" by blast
      have y: "randint 0 (y_size s - 1) (0 # tl) = Returns (0, tl)" for tl
        using sz by (simp add: randint_def)
      have "find_full_cell s (ds @ 0 # nat (fst c) # nat (snd c) # [])
          = (if w \<noteq> Empty then Returns (?p, [nat (fst c), nat (snd c)])
             else Returns (c, []))"
        using ds Nil x y w hit [of "[]"] by (subst find_full_cell.simps) simp
      then have "\<exists>p rest. find_full_cell s (ds @ 0 # nat (fst c) # nat (snd c) # [])
          = Returns (p, rest)"
        by (cases "w = Empty") simp_all
      then show ?thesis by (rule exI)
    next
      case (Cons d2 ds2)
      let ?p = "(?x, int d2 mod y_size s)"
      have inb: "in_bounds s ?p" using sz by (simp add: in_bounds_def)
      from cell_at_in_bounds [OF assms(1) inb] obtain w where
        w: "cell_at (grid s) ?p = Returns w" by blast
      have y: "randint 0 (y_size s - 1) (d2 # tl) = Returns (int d2 mod y_size s, tl)" for tl
        using sz by (simp add: randint_def)
      have unfold: "find_full_cell s (ds @ ext)
          = (if w \<noteq> Empty then Returns (?p, ds2 @ ext) else find_full_cell s (ds2 @ ext))"
        for ext
        using ds Cons x y w by (subst find_full_cell.simps) simp
      show ?thesis
      proof (cases "w = Empty")
        case False
        with unfold [of "[]"] have "find_full_cell s (ds @ []) = Returns (?p, ds2 @ [])"
          by simp
        then show ?thesis by (intro exI)
      next
        case True
        from ds Cons have "length ds2 < length ds" by simp
        with 1 obtain ext p rest where "find_full_cell s (ds2 @ ext) = Returns (p, rest)"
          by blast
        with unfold [of ext] True have "find_full_cell s (ds @ ext) = Returns (p, rest)"
          by simp
        then show ?thesis by (intro exI)
      qed
    qed
  qed
qed

lemma find_empty_cell_extends:
  assumes "well_formed s" "in_bounds s e" "cell_at (grid s) e = Returns Empty"
  shows "\<exists>ext p rest. find_empty_cell s (ds @ ext) = Returns (p, rest)"
proof (induction ds rule: length_induct)
  case (1 ds)
  from assms(2) have sz: "0 < x_size s" "0 < y_size s" by (auto simp: in_bounds_def)
  from assms(1) sz have len: "int (length (grid s)) = x_size s" by (simp add: well_formed_def)
  with sz obtain row0 rest0 where g: "grid s = row0 # rest0" by (cases "grid s") auto
  with assms(1) sz have len0: "int (length row0) = y_size s" by (simp add: well_formed_def)
  have r0: "getitem (grid s) 0 = Returns row0" using g by (simp add: getitem_nonneg)
  note hit = find_empty_cell_hit [OF assms]
  show ?case
  proof (cases ds)
    case Nil
    with hit [of "[]"] show ?thesis by (intro exI [of _ "[nat (fst e), nat (snd e)]"]) auto
  next
    case ds: (Cons d1 ds1)
    let ?x = "int d1 mod x_size s"
    have x: "randint 0 (int (length (grid s)) - 1) (d1 # tl) = Returns (?x, tl)" for tl
      using sz len by (simp add: randint_def)
    show ?thesis
    proof (cases ds1)
      case Nil
      let ?p = "(?x, 0::int)"
      have inb: "in_bounds s ?p" using sz by (simp add: in_bounds_def)
      from cell_at_in_bounds [OF assms(1) inb] obtain w where
        w: "cell_at (grid s) ?p = Returns w" by blast
      have y: "randint 0 (int (length row0) - 1) (0 # tl) = Returns (0, tl)" for tl
        using sz len0 by (simp add: randint_def)
      have "find_empty_cell s (ds @ 0 # nat (fst e) # nat (snd e) # [])
          = (if w \<noteq> Empty then Returns (e, [])
             else Returns (?p, [nat (fst e), nat (snd e)]))"
        using ds Nil x y w r0 hit [of "[]"] by (subst find_empty_cell.simps) simp
      then have "\<exists>p rest. find_empty_cell s (ds @ 0 # nat (fst e) # nat (snd e) # [])
          = Returns (p, rest)"
        by (cases "w = Empty") simp_all
      then show ?thesis by (rule exI)
    next
      case (Cons d2 ds2)
      let ?p = "(?x, int d2 mod y_size s)"
      have inb: "in_bounds s ?p" using sz by (simp add: in_bounds_def)
      from cell_at_in_bounds [OF assms(1) inb] obtain w where
        w: "cell_at (grid s) ?p = Returns w" by blast
      have y: "randint 0 (int (length row0) - 1) (d2 # tl) = Returns (int d2 mod y_size s, tl)"
        for tl
        using sz len0 by (simp add: randint_def)
      have unfold: "find_empty_cell s (ds @ ext)
          = (if w \<noteq> Empty then find_empty_cell s (ds2 @ ext) else Returns (?p, ds2 @ ext))"
        for ext
        using ds Cons x y w r0 by (subst find_empty_cell.simps) simp
      show ?thesis
      proof (cases "w = Empty")
        case True
        with unfold [of "[]"] have "find_empty_cell s (ds @ []) = Returns (?p, ds2 @ [])"
          by simp
        then show ?thesis by (intro exI)
      next
        case False
        from ds Cons have "length ds2 < length ds" by simp
        with 1 obtain ext p rest where "find_empty_cell s (ds2 @ ext) = Returns (p, rest)"
          by blast
        with unfold [of ext] False have "find_empty_cell s (ds @ ext) = Returns (p, rest)"
          by simp
        then show ?thesis by (intro exI)
      qed
    qed
  qed
qed

lemma set_cell_total:
  assumes "0 \<le> fst p" "0 \<le> snd p" "cell_at g p = Returns c"
  shows "\<exists>g'. set_cell g p v = Returns g'"
  using assms by (auto simp: cell_at_nonneg set_cell_nonneg split: if_splits)

lemma run_one_step_stay:
  assumes "find_full_cell s ds = Returns (c, ds1)" "get_neighbor_relation s c = Returns r"
    "\<not> r < stay_threshold s"
  shows "run_one_step s ds = Returns (s, ds1)"
  using assms by (simp add: run_one_step_def)

lemma run_one_step_move:
  assumes f: "find_full_cell s ds = Returns (c, ds1)"
    and r: "get_neighbor_relation s c = Returns r" "r < stay_threshold s"
    and e: "find_empty_cell s ds1 = Returns (e, ds2)"
  shows "\<exists>v g'. cell_at (grid s) c = Returns v \<and> v \<noteq> Empty
      \<and> run_one_step s ds = Returns (s\<lparr>grid := g'\<rparr>, ds2)
      \<and> cell_at g' c = Returns Empty \<and> cell_at g' e = Returns v"
proof -
  from find_full_cell_Returns [OF f] obtain v where
    cn: "0 \<le> fst c" "0 \<le> snd c" and cv: "cell_at (grid s) c = Returns v" and vne: "v \<noteq> Empty"
    by (auto simp: in_bounds_def)
  from find_empty_cell_Returns [OF e] have en: "0 \<le> fst e" "0 \<le> snd e"
    and ee: "cell_at (grid s) e = Returns Empty" by simp_all
  from ee cv vne have neq: "e \<noteq> c" by auto
  from set_cell_total [OF en ee] obtain g1 where g1: "set_cell (grid s) e v = Returns g1" by blast
  have c1: "cell_at g1 c = Returns v"
    using cell_at_set_cell [OF en cn g1] neq cv by simp
  from set_cell_total [OF cn c1] obtain g2 where g2: "set_cell g1 c Empty = Returns g2" by blast
  have "cell_at g2 c = Returns Empty" using cell_at_set_cell [OF cn cn g2] by simp
  moreover have "cell_at g2 e = Returns v"
    using cell_at_set_cell [OF cn en g2] cell_at_set_cell [OF en en g1] neq by simp
  moreover have "run_one_step s ds = Returns (s\<lparr>grid := g2\<rparr>, ds2)"
    using f r e cv g1 g2 by (simp add: run_one_step_def)
  ultimately show ?thesis using cv vne by blast
qed

lemma run_one_step_on_chosen_draws:
  assumes wf: "well_formed s"
    and c: "in_bounds s chosen" "cell_at (grid s) chosen = Returns v" "v \<noteq> Empty"
    and e: "in_bounds s new" "cell_at (grid s) new = Returns Empty"
  shows "\<exists>r. get_neighbor_relation s chosen = Returns r
     \<and> (if r < stay_threshold s
        then \<exists>g'. run_one_step s
                     (nat (fst chosen) # nat (snd chosen) # nat (fst new) # nat (snd new) # ext)
                   = Returns (s\<lparr>grid := g'\<rparr>, ext)
                 \<and> cell_at g' chosen = Returns Empty \<and> cell_at g' new = Returns v
        else run_one_step s (nat (fst chosen) # nat (snd chosen) # ext) = Returns (s, ext))"
proof -
  from get_neighbor_relation_total [OF wf c(1)] obtain r where
    r: "get_neighbor_relation s chosen = Returns r" by blast
  show ?thesis
  proof (cases "r < stay_threshold s")
    case False
    from run_one_step_stay [OF find_full_cell_hit [OF c] r False] r False
    show ?thesis by simp
  next
    case True
    from run_one_step_move [OF find_full_cell_hit [OF c] r True find_empty_cell_hit [OF wf e]]
      c(2) r True
    show ?thesis by auto
  qed
qed

lemma run_one_step_extends:
  assumes wf: "well_formed s"
    and occ: "0 < occupied (grid s)" and emp: "0 < count_cells Empty (grid s)"
  shows "\<exists>ext s' ds'. run_one_step s (ds @ ext) = Returns (s', ds')"
proof -
  from occupied_position [OF wf occ] obtain c0 v0 where
    c0: "in_bounds s c0" "cell_at (grid s) c0 = Returns v0" "v0 \<noteq> Empty" by blast
  from empty_position [OF wf emp] obtain e0 where
    e0: "in_bounds s e0" "cell_at (grid s) e0 = Returns Empty" by blast
  from find_full_cell_extends [OF wf c0, of ds] obtain ext1 c rest1 where
    f: "find_full_cell s (ds @ ext1) = Returns (c, rest1)" by blast
  from find_full_cell_Returns [OF f] have "in_bounds s c" by simp
  from get_neighbor_relation_total [OF wf this] obtain r where
    r: "get_neighbor_relation s c = Returns r" by blast
  show ?thesis
  proof (cases "r < stay_threshold s")
    case False
    from run_one_step_stay [OF f r False] show ?thesis by blast
  next
    case True
    from find_empty_cell_extends [OF wf e0, of rest1] obtain ext2 e rest2 where
      e: "find_empty_cell s (rest1 @ ext2) = Returns (e, rest2)" by blast
    from reads_prefixD [OF reads_prefix_find_full_cell f] obtain used where
      u: "ds @ ext1 = used @ rest1" "\<And>m. find_full_cell s (used @ m) = Returns (c, m)" by blast
    have eq: "ds @ (ext1 @ ext2) = used @ (rest1 @ ext2)" using u(1) by (metis append.assoc)
    have f2: "find_full_cell s (ds @ (ext1 @ ext2)) = Returns (c, rest1 @ ext2)"
      unfolding eq by (rule u(2))
    from run_one_step_move [OF f2 r True e] show ?thesis by blast
  qed
qed

lemma find_full_cell_no_raise:
  assumes "well_formed s" "0 < x_size s" "0 < y_size s"
  shows "find_full_cell s ds \<noteq> Raises err"
proof (induction ds rule: length_induct)
  case (1 ds)
  show ?case
  proof (cases ds)
    case Nil
    with assms(2) show ?thesis by (subst find_full_cell.simps) (simp add: randint_def)
  next
    case ds: (Cons d1 ds1)
    have x: "randint 0 (x_size s - 1) (d1 # tl) = Returns (int d1 mod x_size s, tl)" for tl
      using assms(2) by (simp add: randint_def)
    show ?thesis
    proof (cases ds1)
      case Nil
      with ds x assms(3) show ?thesis
        by (subst find_full_cell.simps) (simp add: randint_def)
    next
      case (Cons d2 ds2)
      let ?p = "(int d1 mod x_size s, int d2 mod y_size s)"
      have inb: "in_bounds s ?p" using assms(2,3) by (simp add: in_bounds_def)
      from cell_at_in_bounds [OF assms(1) inb] obtain w where
        w: "cell_at (grid s) ?p = Returns w" by blast
      have y: "randint 0 (y_size s - 1) (d2 # tl) = Returns (int d2 mod y_size s, tl)" for tl
        using assms(3) by (simp add: randint_def)
      from ds Cons have "length ds2 < length ds" by simp
      with 1 have "find_full_cell s ds2 \<noteq> Raises err" by blast
      with ds Cons x y w show ?thesis
        by (subst find_full_cell.simps) simp
    qed
  qed
qed

lemma find_empty_cell_no_raise:
  assumes "well_formed s" "0 < x_size s" "0 < y_size s"
  shows "find_empty_cell s ds \<noteq> Raises err"
proof (induction ds rule: length_induct)
  case (1 ds)
  from assms(1,2) have len: "int (length (grid s)) = x_size s" by (simp add: well_formed_def)
  with assms(2) obtain row0 rest0 where g: "grid s = row0 # rest0" by (cases "grid s") auto
  with assms(1,3) have len0: "int (length row0) = y_size s" by (simp add: well_formed_def)
  have r0: "getitem (grid s) 0 = Returns row0" using g by (simp add: getitem_nonneg)
  show ?case
  proof (cases ds)
    case Nil
    with assms(2) len show ?thesis by (subst find_empty_cell.simps) (simp add: randint_def)
  next
    case ds: (Cons d1 ds1)
    have x: "randint 0 (int (length (grid s)) - 1) (d1 # tl) = Returns (int d1 mod x_size s, tl)"
      for tl
      using assms(2) len by (simp add: randint_def)
    show ?thesis
    proof (cases ds1)
      case Nil
      from assms(3) len0 have "row0 \<noteq> []" by auto
      with Nil ds x r0 show ?thesis
        by (subst find_empty_cell.simps) (simp add: randint_def)
    next
      case (Cons d2 ds2)
      let ?p = "(int d1 mod x_size s, int d2 mod y_size s)"
      have inb: "in_bounds s ?p" using assms(2,3) by (simp add: in_bounds_def)
      from cell_at_in_bounds [OF assms(1) inb] obtain w where
        w: "cell_at (grid s) ?p = Returns w" by blast
      have y: "randint 0 (int (length row0) - 1) (d2 # tl) = Returns (int d2 mod y_size s, tl)"
        for tl
        using assms(3) len0 by (simp add: randint_def)
      from ds Cons have "length ds2 < length ds" by simp
      with 1 have "find_empty_cell s ds2 \<noteq> Raises err" by blast
      with ds Cons x y w r0 show ?thesis
        by (subst find_empty_cell.simps) simp
    qed
  qed
qed

lemma run_one_step_no_raise:
  assumes wf: "well_formed s" and sz: "0 < x_size s" "0 < y_size s"
  shows "run_one_step s ds \<noteq> Raises err"
proof (cases "find_full_cell s ds")
  case (Returns a)
  obtain c ds1 where a: "a = (c, ds1)" by (cases a)
  with Returns have f: "find_full_cell s ds = Returns (c, ds1)" by simp
  from find_full_cell_Returns [OF f] have "in_bounds s c" by simp
  from get_neighbor_relation_total [OF wf this] obtain r where
    r: "get_neighbor_relation s c = Returns r" by blast
  show ?thesis
  proof (cases "r < stay_threshold s")
    case False
    from run_one_step_stay [OF f r False] show ?thesis by simp
  next
    case True
    show ?thesis
    proof (cases "find_empty_cell s ds1")
      case (Returns b)
      obtain e ds2 where "b = (e, ds2)" by (cases b)
      with Returns have "find_empty_cell s ds1 = Returns (e, ds2)" by simp
      from run_one_step_move [OF f r True this] show ?thesis by auto
    next
      case (Raises x)
      with find_empty_cell_no_raise [OF wf sz] show ?thesis by simp
    next
      case Starved
      with f r True show ?thesis by (simp add: run_one_step_def)
    qed
  qed
next
  case (Raises x)
  with find_full_cell_no_raise [OF wf sz] show ?thesis by simp
next
  case Starved
  then show ?thesis by (simp add: run_one_step_def)
qed

lemma run_one_step_frame:
  assumes "run_one_step s ds = Returns (s', ds')"
  shows "\<exists>chosen v r.
       in_bounds s chosen
     \<and> cell_at (grid s) chosen = Returns v \<and> v \<noteq> Empty
     \<and> get_neighbor_relation s chosen = Returns r
     \<and> (if stay_threshold s \<le> r then s' = s
        else \<exists>new g'.
              0 \<le> fst new \<and> 0 \<le> snd new
            \<and> cell_at (grid s) new = Returns Empty
            \<and> s' = s\<lparr>grid := g'\<rparr>
            \<and> map length g' = map length (grid s)
            \<and> cell_at g' chosen = Returns Empty
            \<and> cell_at g' new = Returns v
            \<and> (\<forall>q. 0 \<le> fst q \<and> 0 \<le> snd q \<and> q \<noteq> chosen \<and> q \<noteq> new
                   \<longrightarrow> cell_at g' q = cell_at (grid s) q))
     \<and> occupied (grid s') = occupied (grid s)"
proof -
  from assms obtain chosen ds1 r where
    f: "find_full_cell s ds = Returns (chosen, ds1)" and
    r: "get_neighbor_relation s chosen = Returns r" and
    k: "(if r < stay_threshold s then
           bind (find_empty_cell s ds1) (\<lambda>(new_pos, ds2).
           bind (cell_at (grid s) chosen) (\<lambda>v.
           bind (set_cell (grid s) new_pos v) (\<lambda>g1.
           bind (set_cell g1 chosen Empty) (\<lambda>g2.
           Returns (s\<lparr>grid := g2\<rparr>, ds2)))))
         else Returns (s, ds1)) = Returns (s', ds')"
    by (auto simp: run_one_step_def bind_Returns_iff)
  from find_full_cell_Returns [OF f] obtain v where
    cb: "in_bounds s chosen" and cv: "cell_at (grid s) chosen = Returns v" and vne: "v \<noteq> Empty"
    by blast
  from cb have cn: "0 \<le> fst chosen" "0 \<le> snd chosen" by (simp_all add: in_bounds_def)
  show ?thesis
  proof (cases "r < stay_threshold s")
    case False
    with k have "s' = s" by simp
    moreover from False have "stay_threshold s \<le> r" by simp
    ultimately show ?thesis
      using cb cv vne r
      by (intro exI [of _ chosen] exI [of _ v] exI [of _ r]) simp
  next
    case True
    with k cv obtain new ds2 g1 g2 where
      e: "find_empty_cell s ds1 = Returns (new, ds2)" and
      g1: "set_cell (grid s) new v = Returns g1" and
      g2: "set_cell g1 chosen Empty = Returns g2" and
      s': "s' = s\<lparr>grid := g2\<rparr>"
      by (auto simp: bind_Returns_iff)
    from find_empty_cell_Returns [OF e] have nn: "0 \<le> fst new" "0 \<le> snd new"
      and ne: "cell_at (grid s) new = Returns Empty" by simp_all
    from ne cv vne have neq: "new \<noteq> chosen" by auto
    have c1: "cell_at g1 q = (if q = new then Returns v else cell_at (grid s) q)"
      if "0 \<le> fst q" "0 \<le> snd q" for q
      using cell_at_set_cell [OF nn that g1] .
    have c2: "cell_at g2 q = (if q = chosen then Returns Empty else cell_at g1 q)"
      if "0 \<le> fst q" "0 \<le> snd q" for q
      using cell_at_set_cell [OF cn that g2] .
    have shape: "map length g2 = map length (grid s)"
      using set_cell_shape [OF nn g1] set_cell_shape [OF cn g2] by simp
    have chosen1: "cell_at g1 chosen = Returns v"
      using c1 [OF cn] neq cv by simp
    have occ: "occupied g2 = occupied (grid s)"
      using set_cell_occupied_frame [OF nn ne g1] set_cell_occupied_frame [OF cn chosen1 g2] vne
      by simp
    have a: "cell_at g2 chosen = Returns Empty" using c2 [OF cn] by simp
    have b: "cell_at g2 new = Returns v" using c2 [OF nn] c1 [OF nn] neq by simp
    have c: "\<forall>q. 0 \<le> fst q \<and> 0 \<le> snd q \<and> q \<noteq> chosen \<and> q \<noteq> new
                   \<longrightarrow> cell_at g2 q = cell_at (grid s) q"
      using c1 c2 by simp
    from True have nt: "\<not> stay_threshold s \<le> r" by simp
    have "\<exists>new g'. 0 \<le> fst new \<and> 0 \<le> snd new
            \<and> cell_at (grid s) new = Returns Empty
            \<and> s' = s\<lparr>grid := g'\<rparr>
            \<and> map length g' = map length (grid s)
            \<and> cell_at g' chosen = Returns Empty
            \<and> cell_at g' new = Returns v
            \<and> (\<forall>q. 0 \<le> fst q \<and> 0 \<le> snd q \<and> q \<noteq> chosen \<and> q \<noteq> new
                   \<longrightarrow> cell_at g' q = cell_at (grid s) q)"
      using nn ne s' shape a b c by blast
    with nt cb cv vne r occ s' show ?thesis
      apply (intro exI [of _ chosen] exI [of _ v] exI [of _ r])
      apply (simp only: if_False)
      apply simp
      done
  qed
qed

text \<open>
  C6. On a well-formed state with at least one occupied and at least one empty cell, a
  step never raises, and every list of draws can be extended so that the step returns
  (it is out of draws only while the searches have not hit). For every occupied cell and
  every empty cell there are draws on which the step selects that agent and, when its
  neighbor relation \<open>r\<close> is below \<open>stay_threshold\<close>, moves it to that empty cell; when
  \<open>r \<ge> stay_threshold\<close> the step returns the state unchanged. Every step that returns
  has selected an occupied in-bounds cell: if \<open>r \<ge> stay_threshold\<close> the state is
  unchanged; if \<open>r < stay_threshold\<close> exactly two cells change, the selected cell becomes
  empty and a previously empty cell takes the agent's type, with every other cell and
  the shape of the grid unchanged. In both cases the number of occupied cells is
  preserved.
\<close>

theorem run_one_step_moves_at_most_one_agent:
  assumes wf: "well_formed s"
    and occ: "0 < occupied (grid s)" and emp: "0 < count_cells Empty (grid s)"
  shows
    "(\<forall>ds. (\<forall>err. run_one_step s ds \<noteq> Raises err)
           \<and> (\<exists>ext s' ds'. run_one_step s (ds @ ext) = Returns (s', ds')))
   \<and> (\<forall>chosen v new ext.
         in_bounds s chosen \<and> cell_at (grid s) chosen = Returns v \<and> v \<noteq> Empty
         \<and> in_bounds s new \<and> cell_at (grid s) new = Returns Empty \<longrightarrow>
         (\<exists>r. get_neighbor_relation s chosen = Returns r
            \<and> (if r < stay_threshold s
               then \<exists>g'. run_one_step s
                            (nat (fst chosen) # nat (snd chosen)
                               # nat (fst new) # nat (snd new) # ext)
                          = Returns (s\<lparr>grid := g'\<rparr>, ext)
                        \<and> cell_at g' chosen = Returns Empty \<and> cell_at g' new = Returns v
               else run_one_step s (nat (fst chosen) # nat (snd chosen) # ext)
                      = Returns (s, ext))))
   \<and> (\<forall>ds s' ds'. run_one_step s ds = Returns (s', ds') \<longrightarrow>
        (\<exists>chosen v r.
           in_bounds s chosen
         \<and> cell_at (grid s) chosen = Returns v \<and> v \<noteq> Empty
         \<and> get_neighbor_relation s chosen = Returns r
         \<and> (if stay_threshold s \<le> r then s' = s
            else \<exists>new g'.
                  in_bounds s new
                \<and> cell_at (grid s) new = Returns Empty
                \<and> s' = s\<lparr>grid := g'\<rparr>
                \<and> map length g' = map length (grid s)
                \<and> cell_at g' chosen = Returns Empty
                \<and> cell_at g' new = Returns v
                \<and> (\<forall>q. 0 \<le> fst q \<and> 0 \<le> snd q \<and> q \<noteq> chosen \<and> q \<noteq> new
                       \<longrightarrow> cell_at g' q = cell_at (grid s) q))
         \<and> occupied (grid s') = occupied (grid s)))"
proof (intro conjI allI impI)
  from occupied_position [OF wf occ] have sz: "0 < x_size s" "0 < y_size s"
    by (auto simp: in_bounds_def)
  fix ds err
  show "run_one_step s ds \<noteq> Raises err" by (rule run_one_step_no_raise [OF wf sz])
next
  fix ds
  show "\<exists>ext s' ds'. run_one_step s (ds @ ext) = Returns (s', ds')"
    by (rule run_one_step_extends [OF wf occ emp])
next
  fix chosen v new ext
  assume "in_bounds s chosen \<and> cell_at (grid s) chosen = Returns v \<and> v \<noteq> Empty
         \<and> in_bounds s new \<and> cell_at (grid s) new = Returns Empty"
  then have c: "in_bounds s chosen" "cell_at (grid s) chosen = Returns v" "v \<noteq> Empty"
    and e: "in_bounds s new" "cell_at (grid s) new = Returns Empty" by simp_all
  show "\<exists>r. get_neighbor_relation s chosen = Returns r
            \<and> (if r < stay_threshold s
               then \<exists>g'. run_one_step s
                            (nat (fst chosen) # nat (snd chosen)
                               # nat (fst new) # nat (snd new) # ext)
                          = Returns (s\<lparr>grid := g'\<rparr>, ext)
                        \<and> cell_at g' chosen = Returns Empty \<and> cell_at g' new = Returns v
               else run_one_step s (nat (fst chosen) # nat (snd chosen) # ext)
                      = Returns (s, ext))"
    by (rule run_one_step_on_chosen_draws [OF wf c e])
next
  fix ds s' ds'
  assume st: "run_one_step s ds = Returns (s', ds')"
  from run_one_step_frame [OF st] obtain chosen v r where
    a: "in_bounds s chosen" "cell_at (grid s) chosen = Returns v" "v \<noteq> Empty"
       "get_neighbor_relation s chosen = Returns r"
       "occupied (grid s') = occupied (grid s)"
    and b: "if stay_threshold s \<le> r then s' = s
        else \<exists>new g'.
              0 \<le> fst new \<and> 0 \<le> snd new
            \<and> cell_at (grid s) new = Returns Empty
            \<and> s' = s\<lparr>grid := g'\<rparr>
            \<and> map length g' = map length (grid s)
            \<and> cell_at g' chosen = Returns Empty
            \<and> cell_at g' new = Returns v
            \<and> (\<forall>q. 0 \<le> fst q \<and> 0 \<le> snd q \<and> q \<noteq> chosen \<and> q \<noteq> new
                   \<longrightarrow> cell_at g' q = cell_at (grid s) q)"
    by blast
  have inb: "in_bounds s new"
    if "0 \<le> fst new" "0 \<le> snd new" "cell_at (grid s) new = Returns Empty" for new
  proof -
    from that have x: "nat (fst new) < length (grid s)"
      and y: "nat (snd new) < length (grid s ! nat (fst new))"
      by (auto simp: cell_at_nonneg split: if_splits)
    from wf x have "length (grid s ! nat (fst new)) = nat (y_size s)"
      "length (grid s) = nat (x_size s)"
      by (simp_all add: well_formed_def list_all_length)
    with x y that show ?thesis by (simp add: in_bounds_def)
  qed
  have "if stay_threshold s \<le> r then s' = s
            else \<exists>new g'.
                  in_bounds s new
                \<and> cell_at (grid s) new = Returns Empty
                \<and> s' = s\<lparr>grid := g'\<rparr>
                \<and> map length g' = map length (grid s)
                \<and> cell_at g' chosen = Returns Empty
                \<and> cell_at g' new = Returns v
                \<and> (\<forall>q. 0 \<le> fst q \<and> 0 \<le> snd q \<and> q \<noteq> chosen \<and> q \<noteq> new
                       \<longrightarrow> cell_at g' q = cell_at (grid s) q)"
  proof (cases "stay_threshold s \<le> r")
    case True
    with b show ?thesis by simp
  next
    case False
    with b obtain new g' where
      n: "0 \<le> fst new" "0 \<le> snd new" "cell_at (grid s) new = Returns Empty"
      and rest: "s' = s\<lparr>grid := g'\<rparr>" "map length g' = map length (grid s)"
        "cell_at g' chosen = Returns Empty" "cell_at g' new = Returns v"
        "\<forall>q. 0 \<le> fst q \<and> 0 \<le> snd q \<and> q \<noteq> chosen \<and> q \<noteq> new
                   \<longrightarrow> cell_at g' q = cell_at (grid s) q"
      by auto
    have "\<exists>new g'.
                  in_bounds s new
                \<and> cell_at (grid s) new = Returns Empty
                \<and> s' = s\<lparr>grid := g'\<rparr>
                \<and> map length g' = map length (grid s)
                \<and> cell_at g' chosen = Returns Empty
                \<and> cell_at g' new = Returns v
                \<and> (\<forall>q. 0 \<le> fst q \<and> 0 \<le> snd q \<and> q \<noteq> chosen \<and> q \<noteq> new
                       \<longrightarrow> cell_at g' q = cell_at (grid s) q)"
      using inb [OF n] n(3) rest by blast
    with False show ?thesis by (simp only: if_False)
  qed
  with a show "\<exists>chosen v r.
           in_bounds s chosen
         \<and> cell_at (grid s) chosen = Returns v \<and> v \<noteq> Empty
         \<and> get_neighbor_relation s chosen = Returns r
         \<and> (if stay_threshold s \<le> r then s' = s
            else \<exists>new g'.
                  in_bounds s new
                \<and> cell_at (grid s) new = Returns Empty
                \<and> s' = s\<lparr>grid := g'\<rparr>
                \<and> map length g' = map length (grid s)
                \<and> cell_at g' chosen = Returns Empty
                \<and> cell_at g' new = Returns v
                \<and> (\<forall>q. 0 \<le> fst q \<and> 0 \<le> snd q \<and> q \<noteq> chosen \<and> q \<noteq> new
                       \<longrightarrow> cell_at g' q = cell_at (grid s) q))
         \<and> occupied (grid s') = occupied (grid s)"
    by blast
qed

theorem run_one_step_moves_at_most_one_agent_witness:
  "well_formed small_model \<and> 0 < occupied (grid small_model)
   \<and> 0 < count_cells Empty (grid small_model)
   \<and> run_one_step small_model [0, 0, 1, 1]
       = Returns (small_model\<lparr>grid := [[Empty, TypeB], [TypeB, TypeA]]\<rparr>, [])
   \<and> occupied (grid (small_model\<lparr>grid := [[Empty, TypeB], [TypeB, TypeA]]\<rparr>))
       = occupied (grid small_model)
   \<and> run_one_step small_model [1, 1, 1] = Starved
   \<and> (\<exists>ext s' ds'. run_one_step small_model ([1, 1, 1] @ ext) = Returns (s', ds'))"
proof -
  note r = small_model_ready
  from r have wf: "well_formed small_model" and occ: "0 < occupied (grid small_model)"
    and emp: "0 < count_cells Empty (grid small_model)" by simp_all
  note t = run_one_step_moves_at_most_one_agent [OF wf occ emp]
  from t small_step
  have "occupied (grid (small_model\<lparr>grid := [[Empty, TypeB], [TypeB, TypeA]]\<rparr>))
       = occupied (grid small_model)" by blast
  moreover from t
  have "\<exists>ext s' ds'. run_one_step small_model ([1, 1, 1] @ ext) = Returns (s', ds')"
    by blast
  moreover have "run_one_step small_model [1, 1, 1] = Starved" by code_simp
  ultimately show ?thesis using r small_step by blast
qed

section \<open>The run loop\<close>

lemma small_run:
  "run small_model 2 False 1 [0, 0, 1, 1, 0, 1]
     = Returns (small_model\<lparr>grid := [[Empty, TypeB], [TypeB, TypeA]],
                  segregation_shares := [1, 1], steps_run := 2\<rparr>, [],
                [[[Empty, TypeB], [TypeB, TypeA]], [[Empty, TypeB], [TypeB, TypeA]]])"
  by code_simp

text \<open>
  C9. A completed call of \<^verbatim>\<open>run\<close> with \<open>steps\<close> steps passes through a chain of
  \<open>steps\<close> consecutive iterations, each one step followed by the increment of
  \<open>steps_run\<close> and the append of the segregation share of the resulting state. After
  \<open>i\<close> iterations \<open>steps_run\<close> has grown by \<open>i\<close> and the history by \<open>i\<close> entries, so the
  call increases \<open>steps_run\<close> by \<open>steps\<close>, and when the history is as long as
  \<open>steps_run\<close> at the start (as after construction) it is so after every step.
\<close>

theorem run_counts_steps_and_records_shares:
  assumes "run s steps print_at_end print_every ds = Returns (s', ds', out)"
  shows "\<exists>trace.
       length trace = nat steps + 1 \<and> hd trace = (s, ds) \<and> last trace = (s', ds')
     \<and> chain trace
     \<and> (\<forall>i<length trace.
           steps_run (fst (trace ! i)) = steps_run s + int i
         \<and> length (segregation_shares (fst (trace ! i)))
             = length (segregation_shares s) + i)
     \<and> steps_run s' = steps_run s + int (nat steps)
     \<and> length (segregation_shares s') = length (segregation_shares s) + nat steps
     \<and> (int (length (segregation_shares s)) = steps_run s \<longrightarrow>
          (\<forall>i<length trace.
             int (length (segregation_shares (fst (trace ! i)))) = steps_run (fst (trace ! i))))"
proof -
  from assms obtain out0 where
    "run_loop (nat steps) print_every s ds [] = Returns (s', ds', out0)"
    by (auto simp: run_def bind_Returns_iff)
  from run_loop_trace [OF this] obtain trace where
    len: "length trace = nat steps + 1" and hd: "hd trace = (s, ds)"
    and lst: "last trace = (s', ds')" and ch: "chain trace"
    and ix: "\<forall>i<length trace.
           steps_run (fst (trace ! i)) = steps_run s + int i
         \<and> length (segregation_shares (fst (trace ! i)))
             = length (segregation_shares s) + i"
    by blast
  from len have ne: "trace \<noteq> []" by auto
  from len ne lst have "trace ! nat steps = (s', ds')"
    by (simp add: last_conv_nth)
  moreover from len have "nat steps < length trace" by simp
  ultimately have fin: "steps_run s' = steps_run s + int (nat steps)"
    "length (segregation_shares s') = length (segregation_shares s) + nat steps"
    using ix by (metis fst_conv)+
  have "\<forall>i<length trace.
       int (length (segregation_shares (fst (trace ! i)))) = steps_run (fst (trace ! i))"
    if "int (length (segregation_shares s)) = steps_run s"
    using ix that by simp
  with len hd lst ch ix fin show ?thesis by blast
qed

theorem run_counts_steps_and_records_shares_witness:
  "run small_model 2 False 1 [0, 0, 1, 1, 0, 1]
     = Returns (small_model\<lparr>grid := [[Empty, TypeB], [TypeB, TypeA]],
                  segregation_shares := [1, 1], steps_run := 2\<rparr>, [],
                [[[Empty, TypeB], [TypeB, TypeA]], [[Empty, TypeB], [TypeB, TypeA]]])
   \<and> steps_run (small_model\<lparr>grid := [[Empty, TypeB], [TypeB, TypeA]],
                  segregation_shares := [1, 1], steps_run := 2\<rparr>)
       = steps_run small_model + int (nat 2)
   \<and> length (segregation_shares (small_model\<lparr>grid := [[Empty, TypeB], [TypeB, TypeA]],
                  segregation_shares := [1, 1], steps_run := 2\<rparr>))
       = length (segregation_shares small_model) + nat 2"
proof -
  from run_counts_steps_and_records_shares [OF small_run]
  have "steps_run (small_model\<lparr>grid := [[Empty, TypeB], [TypeB, TypeA]],
                  segregation_shares := [1, 1], steps_run := 2\<rparr>)
       = steps_run small_model + int (nat 2)
   \<and> length (segregation_shares (small_model\<lparr>grid := [[Empty, TypeB], [TypeB, TypeA]],
                  segregation_shares := [1, 1], steps_run := 2\<rparr>))
       = length (segregation_shares small_model) + nat 2" by blast
  with small_run show ?thesis by blast
qed

section \<open>The segregation share and the number of agents placed\<close>

lemma scenario_model_constructed:
  "schelling_model (4, 4) 4 (1 / 2) 0
       [0, 0, 1, 1, 2, 2, 3, 3, 0, 1, 0, 2, 0, 0, 1, 1, 2, 2]
     = Returns (scenario_model, [0, 0, 1, 1, 2, 2])"
  by code_simp

lemma scenario_run:
  "run scenario_model 3 False 2 [0, 0, 1, 1, 2, 2]
     = Returns (scenario_model\<lparr>segregation_shares := [3 / 2, 3 / 2, 3 / 2],
                    steps_run := 3\<rparr>, [], [grid scenario_model])"
  by code_simp

lemma full_model_constructed:
  "schelling_model (2, 2) 3 (1 / 2) (1 / 2) [0, 0, 0, 0, 0, 1, 1, 0, 1, 1]
     = Returns (full_model, [])"
  by code_simp

text \<open>
  C1. The documented range \<open>[0, 1]\<close> of \<^verbatim>\<open>get_segregation\<close> is exceeded: for every
  configuration with \<open>stay_threshold = 0\<close> that construction accepts, the share of the
  constructed model is \<open>(floor (n_agents / 2) + n_agents) / n_agents\<close>, which is greater
  than \<open>1\<close>. Construction places \<open>floor (n_agents / 2) + n_agents\<close> agents, every one of
  them stays at threshold \<open>0\<close>, and the count is divided by \<open>n_agents\<close>.
\<close>

theorem get_segregation_exceeds_one_at_threshold_zero:
  assumes "schelling_model gs n a 0 ds = Returns (m, ds')"
  shows "\<exists>r. get_segregation m = Returns r \<and> r = of_int (n div 2 + n) / of_int n \<and> 1 < r"
proof -
  note f = schelling_model_Returns [OF assms]
  from f have wf: "well_formed m" and thr: "stay_threshold m \<le> 0" and n: "n_agents m \<noteq> 0"
    by simp_all
  from schelling_model_counts [OF assms]
  have "rat_of_nat (occupied (grid m)) = of_int (n div 2 + n)"
    by (metis of_int_of_nat_eq)
  with get_segregation_threshold_zero [OF wf thr n] f(3)
  have g: "get_segregation m = Returns (of_int (n div 2 + n) / of_int n)" by simp
  from f(11) have "n < n div 2 + n" by simp
  then have "rat_of_int n < of_int (n div 2 + n)" by (simp only: of_int_less_iff)
  with f(11) have "1 < rat_of_int (n div 2 + n) / of_int n"
    by (simp add: less_divide_eq)
  with g show ?thesis by simp
qed

theorem get_segregation_exceeds_one_at_threshold_zero_witness:
  "schelling_model (4, 4) 4 (1 / 2) 0
       [0, 0, 1, 1, 2, 2, 3, 3, 0, 1, 0, 2, 0, 0, 1, 1, 2, 2]
     = Returns (scenario_model, [0, 0, 1, 1, 2, 2])
   \<and> get_segregation scenario_model = Returns (3 / 2)"
proof -
  from get_segregation_exceeds_one_at_threshold_zero [OF scenario_model_constructed] obtain r where
    "get_segregation scenario_model = Returns r" "r = of_int (4 div 2 + 4) / of_int 4"
    by blast
  moreover have "rat_of_int (4 div 2 + 4) / of_int 4 = 3 / 2" by simp
  ultimately have "get_segregation scenario_model = Returns (3 / 2)" by simp
  with scenario_model_constructed show ?thesis by simp
qed

text \<open>
  C4. In the scenario of a 4 by 4 grid with \<open>n_agents = 4\<close>, \<open>share_a = 0.5\<close> and
  \<open>stay_threshold = 0\<close>, every neighbor relation is at least \<open>0\<close> and no agent ever
  moves, but after any number of steps of \<^verbatim>\<open>run\<close> the segregation share is \<open>3/2\<close>, not
  \<open>1\<close>: six agents are on the grid and all of them stay, divided by \<open>n_agents = 4\<close>.
\<close>

theorem scenario_4x4_segregation_is_three_halves:
  assumes "schelling_model (4, 4) 4 (1 / 2) 0 ds = Returns (m, ds1)"
    and "run m steps print_at_end print_every ds1 = Returns (m', ds2, out)"
  shows "(\<forall>p r. get_neighbor_relation m' p = Returns r \<longrightarrow> 0 \<le> r)
       \<and> grid m' = grid m
       \<and> get_segregation m' = Returns (3 / 2)
       \<and> segregation_shares m' = replicate (nat steps) (3 / 2)"
proof -
  note f = schelling_model_Returns [OF assms(1)]
  from f have wf: "well_formed m" and thr: "stay_threshold m \<le> 0" and n: "n_agents m \<noteq> 0"
    by simp_all
  from schelling_model_counts [OF assms(1)] have "occupied (grid m) = 6" by simp
  with f(3) have q: "rat_of_nat (occupied (grid m)) / of_int (n_agents m) = 3 / 2" by simp
  from assms(2) obtain out0 where
    "run_loop (nat steps) print_every m ds1 [] = Returns (m', ds2, out0)"
    by (auto simp: run_def bind_Returns_iff)
  from run_loop_threshold_zero [OF wf thr n this] q f(6)
  have m': "m' = m\<lparr>steps_run := steps_run m + int (nat steps),
                    segregation_shares := replicate (nat steps) (3 / 2)\<rparr>"
    by simp
  have "get_segregation m' = get_segregation m"
    unfolding m' by (rule get_segregation_history)
  with get_segregation_threshold_zero [OF wf thr n] q
  have "get_segregation m' = Returns (3 / 2)" by simp
  moreover from m' have "grid m' = grid m" "segregation_shares m' = replicate (nat steps) (3 / 2)"
    by simp_all
  ultimately show ?thesis using get_neighbor_relation_nonneg by blast
qed

theorem scenario_4x4_segregation_is_three_halves_witness:
  "schelling_model (4, 4) 4 (1 / 2) 0
       [0, 0, 1, 1, 2, 2, 3, 3, 0, 1, 0, 2, 0, 0, 1, 1, 2, 2]
     = Returns (scenario_model, [0, 0, 1, 1, 2, 2])
   \<and> run scenario_model 3 False 2 [0, 0, 1, 1, 2, 2]
     = Returns (scenario_model\<lparr>segregation_shares := [3 / 2, 3 / 2, 3 / 2],
                    steps_run := 3\<rparr>, [], [grid scenario_model])
   \<and> get_segregation (scenario_model\<lparr>segregation_shares := [3 / 2, 3 / 2, 3 / 2],
                    steps_run := 3\<rparr>) = Returns (3 / 2)"
proof -
  from scenario_4x4_segregation_is_three_halves [OF scenario_model_constructed scenario_run]
  have "get_segregation (scenario_model\<lparr>segregation_shares := [3 / 2, 3 / 2, 3 / 2],
                    steps_run := 3\<rparr>) = Returns (3 / 2)"
    by blast
  with scenario_model_constructed scenario_run show ?thesis by blast
qed

text \<open>
  C3. Construction does not keep an empty cell: for the accepted configuration of a 2 by
  2 grid with \<open>n_agents = 3\<close>, every construction that returns has placed
  \<open>1 + 3 = 4\<close> agents, so no cell is empty, and \<^verbatim>\<open>__find_empty_cell\<close> does not return on
  any sequence of draws.
\<close>

theorem construction_can_fill_the_grid:
  assumes "schelling_model (2, 2) 3 a t ds = Returns (m, ds')"
  shows "count_cells Empty (grid m) = 0 \<and> occupied (grid m) = 4
       \<and> (\<forall>ds2. find_empty_cell m ds2 = Starved)"
proof -
  note f = schelling_model_Returns [OF assms]
  from schelling_model_counts [OF assms] have occ: "occupied (grid m) = 4" by simp
  from length_concat_well_formed [OF f(8)] f(1,2) have "length (concat (grid m)) = 4" by simp
  with empty_plus_occupied [of "grid m"] occ have e: "count_cells Empty (grid m) = 0" by simp
  from f(1,2) have "0 < x_size m" "0 < y_size m" by simp_all
  from find_empty_cell_full_grid [OF f(8) this e] occ e show ?thesis by simp
qed

theorem construction_can_fill_the_grid_witness:
  "schelling_model (2, 2) 3 (1 / 2) (1 / 2) [0, 0, 0, 0, 0, 1, 1, 0, 1, 1]
     = Returns (full_model, [])
   \<and> count_cells Empty (grid full_model) = 0
   \<and> find_empty_cell full_model [1, 1, 0, 0, 1, 0] = Starved"
  using construction_can_fill_the_grid [OF full_model_constructed] full_model_constructed by simp

section \<open>The periodic print test\<close>

text \<open>
  C2. \<^verbatim>\<open>run\<close> with \<open>print_every = 0\<close> and at least one step is not guarded: it performs
  the first step, computes the segregation share, and then the modulo of the print test
  raises \<^verbatim>\<open>ZeroDivisionError\<close>. It never returns.
\<close>

theorem run_print_every_zero_raises:
  assumes "0 < steps"
  shows "run s steps print_at_end 0 ds =
     bind (run_one_step s ds) (\<lambda>(s1, ds1).
     bind (get_segregation s1) (\<lambda>share. Raises ZeroDivisionError))"
proof -
  from assms obtain k where k: "nat steps = Suc k" by (cases "nat steps") auto
  have h: "get_segregation (s1\<lparr>steps_run := steps_run s1 + 1\<rparr>) = get_segregation s1" for s1
    using get_segregation_history
      [where s = s1 and n = "steps_run s1 + 1" and l = "segregation_shares s1"]
    by simp
  show ?thesis
  proof (cases "run_one_step s ds")
    case (Returns r)
    obtain s1 ds1 where r: "r = (s1, ds1)" by (cases r)
    show ?thesis
      by (cases "get_segregation s1") (simp_all add: run_def k Returns r h)
  qed (simp_all add: run_def k)
qed

theorem run_print_every_zero_raises_witness:
  "(0::int) < 1 \<and> run small_model 1 False 0 [0, 0, 1, 1] = Raises ZeroDivisionError"
proof -
  have "get_segregation (small_model\<lparr>grid := [[Empty, TypeB], [TypeB, TypeA]]\<rparr>) = Returns 1"
    by code_simp
  with run_print_every_zero_raises [of 1 small_model False "[0, 0, 1, 1]"] small_step show ?thesis by simp
qed

text \<open>
  The docstring of \<^verbatim>\<open>run\<close> advises \<open>print_every = -1\<close> to print no update; the test
  \<^verbatim>\<open>self.steps_run % -1 == 0\<close> holds at every step, so the grid is printed after each
  step.
\<close>

lemma run_print_every_minus_one_prints:
  "run small_model 1 False (- 1) [0, 0, 1, 1]
     = Returns (small_model\<lparr>grid := [[Empty, TypeB], [TypeB, TypeA]],
                  segregation_shares := [1], steps_run := 1\<rparr>, [],
                [[[Empty, TypeB], [TypeB, TypeA]]])"
  by code_simp

section \<open>Determinism\<close>






end
